theory Spec2Isabelle
  imports Complex_Main "HOL-Library.Word" "HOL-Library.Signed_Division"
begin

unbundle bit_operations_syntax

section \<open>Sample buffers of SampleUtil (src/util/sample.cpp)\<close>

text \<open>
  A sample buffer is a caller-owned array; it is modelled as a list, and a pointer
  argument of the source as the list it points to. Every function returns the
  buffer it has written. Sample counts (\<open>SINT\<close>, \<open>int\<close>) are signed, so they are
  integers here and the source's \<open>/\<close> on them is the truncating \<open>sdiv\<close>. A loop
  \<open>for (i = a; i < n; ++i)\<close> is a \<open>fold\<close> of its body over \<open>[a..<nat n]\<close>.
  Loop counters and index arithmetic do not overflow in the model: a buffer is
  far shorter than \<open>2^31\<close> samples.
  Reads and writes outside a buffer are undefined behaviour in the source; the
  theorems below assume buffers that are long enough.

  Samples and gains (\<open>CSAMPLE\<close>, \<open>CSAMPLE_GAIN\<close>) are binary32 floats. The
  functions are embedded at two levels of arithmetic. The first treats samples as
  real numbers, that is, it computes without rounding; the one division whose
  divisor can be zero is made explicit (\<open>gain_delta\<close> below). It serves where a
  property is about which samples are read and written, or where the operations
  involved are exact in binary32. The second level (section
  "Binary32 arithmetic") rounds the result of every operation to binary32 and has
  the infinities and NaN; \<open>applyRampingGain\<close> and \<open>mixMultichannelToMono\<close>,
  whose results depend on the rounding, are embedded there a second time.
\<close>

type_synonym CSAMPLE = real
type_synonym CSAMPLE_GAIN = real
type_synonym SINT = int
type_synonym SAMPLE = "16 word"

abbreviation (input) CSAMPLE_ZERO :: CSAMPLE where "CSAMPLE_ZERO \<equiv> 0"
abbreviation (input) CSAMPLE_GAIN_ONE :: CSAMPLE_GAIN where "CSAMPLE_GAIN_ONE \<equiv> 1"
abbreviation (input) CSAMPLE_GAIN_ZERO :: CSAMPLE_GAIN where "CSAMPLE_GAIN_ZERO \<equiv> 0"

text \<open>The compound assignments \<open>p[i] *= g\<close> and \<open>p[i] += v\<close>.\<close>

definition mul_at :: "CSAMPLE list \<Rightarrow> nat \<Rightarrow> CSAMPLE \<Rightarrow> CSAMPLE list" where
  "mul_at p i g = p[i := p ! i * g]"

definition add_at :: "CSAMPLE list \<Rightarrow> nat \<Rightarrow> CSAMPLE \<Rightarrow> CSAMPLE list" where
  "add_at p i v = p[i := p ! i + v]"

text \<open>
  Modelled from the spec: \<open>SampleUtil::clear\<close> and \<open>SampleUtil::copy\<close> are inline
  functions of util/sample.h, which is not among the sources. \<open>clear\<close> sets the first
  \<open>numSamples\<close> samples to zero ("clears the buffer"), \<open>copy\<close> copies the first
  \<open>numSamples\<close> samples of the source ("plain copy").
\<close>

definition clear :: "CSAMPLE list \<Rightarrow> SINT \<Rightarrow> CSAMPLE list" where
  "clear pBuffer numSamples =
     fold (\<lambda>i buf. buf[i := CSAMPLE_ZERO]) [0..<nat numSamples] pBuffer"

definition copy :: "CSAMPLE list \<Rightarrow> CSAMPLE list \<Rightarrow> SINT \<Rightarrow> CSAMPLE list" where
  "copy pDest pSrc numSamples =
     fold (\<lambda>i dest. dest[i := pSrc ! i]) [0..<nat numSamples] pDest"

subsection \<open>Gain engine\<close>

definition applyGain :: "CSAMPLE list \<Rightarrow> CSAMPLE_GAIN \<Rightarrow> SINT \<Rightarrow> CSAMPLE list" where
  "applyGain pBuffer gain numSamples =
     (if gain = CSAMPLE_GAIN_ONE then pBuffer
      else if gain = CSAMPLE_GAIN_ZERO then clear pBuffer numSamples
      else fold (\<lambda>i buf. mul_at buf i gain) [0..<nat numSamples] pBuffer)"

text \<open>
  The gain delta of the ramping operations,
  \<open>(new_gain - old_gain) / CSAMPLE_GAIN(numSamples / 2)\<close>. The divisor is the
  integer \<open>numSamples / 2\<close> converted to float. When it is zero the float division
  yields an infinity or NaN instead of a gain; that outcome is \<open>None\<close>.
\<close>

definition ramp_divisor :: "SINT \<Rightarrow> int" where
  "ramp_divisor numSamples = numSamples sdiv 2"

definition gain_delta :: "CSAMPLE_GAIN \<Rightarrow> CSAMPLE_GAIN \<Rightarrow> SINT \<Rightarrow> CSAMPLE_GAIN option" where
  "gain_delta old_gain new_gain numSamples =
     (if ramp_divisor numSamples = 0 then None
      else Some ((new_gain - old_gain) / real_of_int (ramp_divisor numSamples)))"

text \<open>The gain of stereo frame \<open>i\<close>: \<open>start_gain + gain_delta * i\<close>.\<close>

definition ramp_gain :: "CSAMPLE_GAIN \<Rightarrow> CSAMPLE_GAIN \<Rightarrow> nat \<Rightarrow> CSAMPLE_GAIN" where
  "ramp_gain start_gain delta i = start_gain + delta * real i"

text \<open>
  In \<open>applyRampingGain\<close>, \<open>addWithRampingGain\<close> and \<open>copyWithRampingGain\<close> an
  infinite or NaN delta compares unequal to zero, so the ramp loop is chosen; it
  then runs \<open>numSamples / 2 = 0\<close> times and the buffer is returned as it is.
\<close>

definition applyRampingGain ::
  "CSAMPLE list \<Rightarrow> CSAMPLE_GAIN \<Rightarrow> CSAMPLE_GAIN \<Rightarrow> SINT \<Rightarrow> CSAMPLE list" where
  "applyRampingGain pBuffer old_gain new_gain numSamples =
     (if old_gain = CSAMPLE_GAIN_ONE \<and> new_gain = CSAMPLE_GAIN_ONE then pBuffer
      else if old_gain = CSAMPLE_GAIN_ZERO \<and> new_gain = CSAMPLE_GAIN_ZERO
        then clear pBuffer numSamples
      else case gain_delta old_gain new_gain numSamples of
        None \<Rightarrow> pBuffer
      | Some delta \<Rightarrow>
          if delta \<noteq> 0 then
            (let start_gain = old_gain + delta in
             fold (\<lambda>i buf.
                 let gain = ramp_gain start_gain delta i in
                 mul_at (mul_at buf (i * 2) gain) (i * 2 + 1) gain)
               [0..<nat (numSamples sdiv 2)] pBuffer)
          else fold (\<lambda>i buf. mul_at buf i old_gain) [0..<nat numSamples] pBuffer)"

subsection \<open>Mix and accumulate engine\<close>

definition addWithRampingGain ::
  "CSAMPLE list \<Rightarrow> CSAMPLE list \<Rightarrow> CSAMPLE_GAIN \<Rightarrow> CSAMPLE_GAIN \<Rightarrow> SINT \<Rightarrow> CSAMPLE list" where
  "addWithRampingGain pDest pSrc old_gain new_gain numSamples =
     (if old_gain = CSAMPLE_GAIN_ZERO \<and> new_gain = CSAMPLE_GAIN_ZERO then pDest
      else case gain_delta old_gain new_gain numSamples of
        None \<Rightarrow> pDest
      | Some delta \<Rightarrow>
          if delta \<noteq> 0 then
            (let start_gain = old_gain + delta in
             fold (\<lambda>i dest.
                 let gain = ramp_gain start_gain delta i in
                 add_at (add_at dest (i * 2) (pSrc ! (i * 2) * gain))
                   (i * 2 + 1) (pSrc ! (i * 2 + 1) * gain))
               [0..<nat (numSamples sdiv 2)] pDest)
          else fold (\<lambda>i dest. add_at dest i (pSrc ! i * old_gain))
                 [0..<nat numSamples] pDest)"

definition copyWithRampingGain ::
  "CSAMPLE list \<Rightarrow> CSAMPLE list \<Rightarrow> CSAMPLE_GAIN \<Rightarrow> CSAMPLE_GAIN \<Rightarrow> SINT \<Rightarrow> CSAMPLE list" where
  "copyWithRampingGain pDest pSrc old_gain new_gain numSamples =
     (if old_gain = CSAMPLE_GAIN_ONE \<and> new_gain = CSAMPLE_GAIN_ONE
        then copy pDest pSrc numSamples
      else if old_gain = CSAMPLE_GAIN_ZERO \<and> new_gain = CSAMPLE_GAIN_ZERO
        then clear pDest numSamples
      else case gain_delta old_gain new_gain numSamples of
        None \<Rightarrow> pDest
      | Some delta \<Rightarrow>
          if delta \<noteq> 0 then
            (let start_gain = old_gain + delta in
             fold (\<lambda>i dest.
                 let gain = ramp_gain start_gain delta i in
                 (dest[i * 2 := pSrc ! (i * 2) * gain])
                   [i * 2 + 1 := pSrc ! (i * 2 + 1) * gain])
               [0..<nat (numSamples sdiv 2)] pDest)
          else fold (\<lambda>i dest. dest[i := pSrc ! i * old_gain])
                 [0..<nat numSamples] pDest)"

text \<open>
  \<open>copy1WithRampingGain\<close> has no test of the delta: after the zero-gain fast path
  it always runs the ramp loop, \<open>iNumSamples / 2\<close> times.
\<close>

definition copy1WithRampingGain ::
  "CSAMPLE list \<Rightarrow> CSAMPLE list \<Rightarrow> CSAMPLE_GAIN \<Rightarrow> CSAMPLE_GAIN \<Rightarrow> int \<Rightarrow> CSAMPLE list" where
  "copy1WithRampingGain pDest pSrc0 gain0in gain0out iNumSamples =
     (if gain0in = CSAMPLE_GAIN_ZERO \<and> gain0out = CSAMPLE_GAIN_ZERO
        then clear pDest iNumSamples
      else case gain_delta gain0in gain0out iNumSamples of
        None \<Rightarrow> pDest
      | Some gain_delta0 \<Rightarrow>
          (let start_gain0 = gain0in + gain_delta0 in
           fold (\<lambda>i dest.
               let gain0 = ramp_gain start_gain0 gain_delta0 i in
               (dest[i * 2 := pSrc0 ! (i * 2) * gain0])
                 [i * 2 + 1 := pSrc0 ! (i * 2 + 1) * gain0])
             [0..<nat (iNumSamples sdiv 2)] pDest))"

text \<open>
  The four ramping operations and, for each, the condition under which a call
  gets past its fast paths and computes the gain delta.
\<close>

datatype ramp_op =
  ApplyRampingGain | AddWithRampingGain | CopyWithRampingGain | Copy1WithRampingGain

fun reaches_gain_delta :: "ramp_op \<Rightarrow> CSAMPLE_GAIN \<Rightarrow> CSAMPLE_GAIN \<Rightarrow> bool" where
  "reaches_gain_delta ApplyRampingGain old_gain new_gain =
     (\<not> (old_gain = CSAMPLE_GAIN_ONE \<and> new_gain = CSAMPLE_GAIN_ONE) \<and>
      \<not> (old_gain = CSAMPLE_GAIN_ZERO \<and> new_gain = CSAMPLE_GAIN_ZERO))"
| "reaches_gain_delta AddWithRampingGain old_gain new_gain =
     (\<not> (old_gain = CSAMPLE_GAIN_ZERO \<and> new_gain = CSAMPLE_GAIN_ZERO))"
| "reaches_gain_delta CopyWithRampingGain old_gain new_gain =
     (\<not> (old_gain = CSAMPLE_GAIN_ONE \<and> new_gain = CSAMPLE_GAIN_ONE) \<and>
      \<not> (old_gain = CSAMPLE_GAIN_ZERO \<and> new_gain = CSAMPLE_GAIN_ZERO))"
| "reaches_gain_delta Copy1WithRampingGain gain0in gain0out =
     (\<not> (gain0in = CSAMPLE_GAIN_ZERO \<and> gain0out = CSAMPLE_GAIN_ZERO))"

subsection \<open>Analyzer\<close>

text \<open>
  \<open>maxAbsAmplitude\<close>: the running maximum starts at \<open>pBuffer[0]\<close> as it is, and the
  loop compares the absolute values of the samples from index 1 on. The call
  \<open>abs(pBuffer[i])\<close> is read as the floating-point absolute value.
\<close>

definition maxAbsAmplitude :: "CSAMPLE list \<Rightarrow> SINT \<Rightarrow> CSAMPLE" where
  "maxAbsAmplitude pBuffer numSamples =
     fold (\<lambda>i mx. let absValue = \<bar>pBuffer ! i\<bar> in
                   if absValue > mx then absValue else mx)
       [1..<nat numSamples] (pBuffer ! 0)"

text \<open>
  The peak the specification describes: the maximum of \<open>|pBuffer[i]|\<close> over the
  first \<open>numSamples\<close> samples.
\<close>

definition peak_abs_spec :: "CSAMPLE list \<Rightarrow> SINT \<Rightarrow> CSAMPLE" where
  "peak_abs_spec pBuffer numSamples = Max (set (map abs (take (nat numSamples) pBuffer)))"

subsection \<open>Channel layout transforms\<close>

text \<open>
  \<open>mixxx::kEngineChannelOutputCount\<close> is declared in engine/engine.h, which is not
  among the sources; its value is the parameter \<open>chCount\<close>.
\<close>

definition mixMultichannelToMono ::
  "int \<Rightarrow> CSAMPLE list \<Rightarrow> CSAMPLE list \<Rightarrow> SINT \<Rightarrow> CSAMPLE list" where
  "mixMultichannelToMono chCount pDest pSrc numSamples =
     (let mixScale = CSAMPLE_GAIN_ONE / (CSAMPLE_GAIN_ONE * real_of_int chCount) in
      fold (\<lambda>i dest.
          let d0 = dest[i := CSAMPLE_ZERO];
              d1 = fold (\<lambda>ch d. add_at d i (pSrc ! (i * nat chCount + ch)))
                     [0..<nat chCount] d0
          in mul_at d1 i mixScale)
        [0..<nat (numSamples sdiv chCount)] pDest)"

definition copyWithRampingNormalization ::
  "int \<Rightarrow> CSAMPLE list \<Rightarrow> CSAMPLE list \<Rightarrow> CSAMPLE_GAIN \<Rightarrow> CSAMPLE_GAIN \<Rightarrow> SINT
     \<Rightarrow> CSAMPLE list \<times> CSAMPLE" where
  "copyWithRampingNormalization chCount pDest pSrc old_gain targetAmplitude numSamples =
     (let numMonoSamples = numSamples sdiv chCount;
          dest1 = mixMultichannelToMono chCount pDest pSrc numSamples;
          maxAmplitude = maxAbsAmplitude dest1 numMonoSamples;
          gain = (if maxAmplitude = CSAMPLE_ZERO then 1
                  else targetAmplitude / maxAmplitude)
      in (copyWithRampingGain dest1 pSrc old_gain gain numSamples, gain))"

text \<open>
  \<open>mixxx::audio::ChannelCount\<close> is declared in audio/types.h, which is not among
  the sources; a channel count is the integer it wraps, \<open>stereo()\<close> is 2 and
  \<open>stem()\<close> is 8 (the 8-channel stem layout of the specification).
\<close>

abbreviation (input) ChannelCount_stereo :: int where "ChannelCount_stereo \<equiv> 2"

text \<open>
  The masked overload of \<open>mixMultichannelToStereo\<close>. The mask is a 32-bit \<open>int\<close>;
  \<open>excludeChannelMask >> stemIdx & 0b1\<close> parses as
  \<open>(excludeChannelMask >> stemIdx) & 1\<close>, with an arithmetic shift.
\<close>

definition mixMultichannelToStereo_masked ::
  "CSAMPLE list \<Rightarrow> CSAMPLE list \<Rightarrow> SINT \<Rightarrow> int \<Rightarrow> 32 word \<Rightarrow> CSAMPLE list" where
  "mixMultichannelToStereo_masked pDest pSrc numFrames numChannels excludeChannelMask =
     (let stereoChCount = numChannels sdiv ChannelCount_stereo;
          dest0 = clear pDest (numFrames * ChannelCount_stereo)
      in fold (\<lambda>stemIdx dest.
            if signed_drop_bit stemIdx excludeChannelMask AND 1 \<noteq> 0 then dest
            else fold (\<lambda>i d.
                let srcIdx = nat numChannels * i + stemIdx * 2;
                    destIdx = 2 * i
                in add_at (add_at d destIdx (pSrc ! srcIdx))
                     (destIdx + 1) (pSrc ! (srcIdx + 1)))
              [0..<nat numFrames] dest)
          [0..<nat stereoChCount] dest0)"

definition mixMultichannelToStereo ::
  "CSAMPLE list \<Rightarrow> CSAMPLE list \<Rightarrow> SINT \<Rightarrow> int \<Rightarrow> CSAMPLE list" where
  "mixMultichannelToStereo pDest pSrc numFrames numChannels =
     (let stereoChCount = numChannels sdiv ChannelCount_stereo;
          dest0 = clear pDest (numFrames * ChannelCount_stereo)
      in fold (\<lambda>stemIdx dest.
            fold (\<lambda>i d.
                let srcIdx = nat numChannels * i + stemIdx * 2;
                    destIdx = 2 * i
                in add_at (add_at d destIdx (pSrc ! srcIdx))
                     (destIdx + 1) (pSrc ! (srcIdx + 1)))
              [0..<nat numFrames] dest)
          [0..<nat stereoChCount] dest0)"

subsection \<open>Format converter\<close>

text \<open>
  \<open>SAMPLE\<close> is a 16-bit signed integer; \<open>SAMPLE_MINIMUM\<close> and \<open>SAMPLE_MAXIMUM\<close>
  are declared in util/types.h, which is not among the sources, and have the values
  the comment in \<open>convertS16ToFloat32\<close> gives them.
\<close>

definition SAMPLE_MINIMUM :: int where "SAMPLE_MINIMUM = - 32768"
definition SAMPLE_MAXIMUM :: int where "SAMPLE_MAXIMUM = 32767"

definition kConversionFactor :: CSAMPLE where
  "kConversionFactor = real_of_int SAMPLE_MINIMUM * - 1"

text \<open>
  Modelled from the spec: \<open>math_clamp\<close> is a template of util/math.h, which is not
  among the sources; it clamps its first argument to \<open>[min, max]\<close>.
\<close>

definition math_clamp :: "real \<Rightarrow> real \<Rightarrow> real \<Rightarrow> real" where
  "math_clamp v lo hi = max lo (min hi v)"

text \<open>
  \<open>static_cast<SAMPLE>\<close> of a float discards the fractional part (rounds towards
  zero); the clamped value always fits 16 bits.
\<close>

definition static_cast_SAMPLE :: "real \<Rightarrow> SAMPLE" where
  "static_cast_SAMPLE v = word_of_int (if 0 \<le> v then \<lfloor>v\<rfloor> else \<lceil>v\<rceil>)"

definition convertS16ToFloat32 :: "CSAMPLE list \<Rightarrow> SAMPLE list \<Rightarrow> SINT \<Rightarrow> CSAMPLE list" where
  "convertS16ToFloat32 pDest pSrc numSamples =
     fold (\<lambda>i dest. dest[i := real_of_int (sint (pSrc ! i)) / kConversionFactor])
       [0..<nat numSamples] pDest"

definition convertFloat32ToS16 :: "SAMPLE list \<Rightarrow> CSAMPLE list \<Rightarrow> SINT \<Rightarrow> SAMPLE list" where
  "convertFloat32ToS16 pDest pSrc numSamples =
     fold (\<lambda>i dest. dest[i := static_cast_SAMPLE
              (math_clamp (pSrc ! i * kConversionFactor)
                 (real_of_int SAMPLE_MINIMUM) (real_of_int SAMPLE_MAXIMUM))])
       [0..<nat numSamples] pDest"

subsection \<open>Crossfader\<close>









section \<open>Binary32 arithmetic\<close>

text \<open>
  A binary32 value is a finite number, an infinity or NaN. A finite value is a
  multiple \<open>m * q\<close> of a quantum \<open>q = 2^e\<close> with \<open>|m| < 2^24\<close> and
  \<open>-149 \<le> e \<le> 104\<close>. The two zeros are one value here: the only divisors of
  the functions below that can be zero are converted from the integer 0, which is
  the positive zero. Every operation of the source is rounded on its own, to
  nearest with ties to even (no fused multiply-add, no wider intermediate
  format).
\<close>

datatype f32 = Fin real | PInf | NInf | NaN

text \<open>
  The quantum of the binade of \<open>x\<close>: the least \<open>q = 2^e\<close>, \<open>e \<ge> -149\<close>, with
  \<open>|x| < 2^24 * q\<close>, found by doubling from \<open>2^-149\<close>, at most 253 times (up to
  \<open>2^104\<close>, the quantum of the largest finite values).
\<close>

fun quantum_from :: "nat \<Rightarrow> real \<Rightarrow> real \<Rightarrow> real" where
  "quantum_from 0 q x = q"
| "quantum_from (Suc fuel) q x =
     (if \<bar>x\<bar> < 16777216 * q then q else quantum_from fuel (2 * q) x)"

definition qmin :: real where "qmin = 1 / 2 ^ 149"

definition quantum :: "real \<Rightarrow> real" where
  "quantum x = quantum_from 253 (1 / 2 ^ 149) x"

text \<open>Rounding to the nearest integer, a tie to the even neighbour.\<close>

definition round_half_even :: "real \<Rightarrow> int" where
  "round_half_even y =
     (let f = \<lfloor>y\<rfloor>; r = y - real_of_int f
      in if r < 1 / 2 then f else if 1 / 2 < r then f + 1
         else if even f then f else f + 1)"

text \<open>
  Rounding a real result to binary32: the nearest multiple of the quantum; a
  result of magnitude \<open>2^128\<close> or more overflows to an infinity.
\<close>

definition round_f32 :: "real \<Rightarrow> f32" where
  "round_f32 x =
     (let q = quantum x; r = q * real_of_int (round_half_even (x / q))
      in if 2 ^ 128 \<le> r then PInf else if r \<le> - (2 ^ 128) then NInf else Fin r)"

text \<open>The finite binary32 values are the numbers that rounding leaves unchanged.\<close>

definition is_f32 :: "real \<Rightarrow> bool" where
  "is_f32 x = (round_f32 x = Fin x)"

text \<open>Conversion of an integer to float, and the arithmetic operations.\<close>

definition f32_of_int :: "int \<Rightarrow> f32" where
  "f32_of_int k = round_f32 (real_of_int k)"

definition fneg :: "f32 \<Rightarrow> f32" where
  "fneg a = (case a of Fin x \<Rightarrow> Fin (- x) | PInf \<Rightarrow> NInf | NInf \<Rightarrow> PInf | NaN \<Rightarrow> NaN)"

fun fadd :: "f32 \<Rightarrow> f32 \<Rightarrow> f32" where
  "fadd (Fin a) (Fin b) = round_f32 (a + b)"
| "fadd NaN _ = NaN"
| "fadd _ NaN = NaN"
| "fadd PInf NInf = NaN"
| "fadd NInf PInf = NaN"
| "fadd PInf _ = PInf"
| "fadd _ PInf = PInf"
| "fadd NInf _ = NInf"
| "fadd _ NInf = NInf"

definition fsub :: "f32 \<Rightarrow> f32 \<Rightarrow> f32" where
  "fsub a b = fadd a (fneg b)"

definition inf_of_sign :: "bool \<Rightarrow> f32" where
  "inf_of_sign positive = (if positive then PInf else NInf)"

fun fmul :: "f32 \<Rightarrow> f32 \<Rightarrow> f32" where
  "fmul (Fin a) (Fin b) = round_f32 (a * b)"
| "fmul NaN _ = NaN"
| "fmul _ NaN = NaN"
| "fmul (Fin a) PInf = (if a = 0 then NaN else inf_of_sign (0 < a))"
| "fmul (Fin a) NInf = (if a = 0 then NaN else inf_of_sign (a < 0))"
| "fmul PInf (Fin b) = (if b = 0 then NaN else inf_of_sign (0 < b))"
| "fmul NInf (Fin b) = (if b = 0 then NaN else inf_of_sign (b < 0))"
| "fmul PInf PInf = PInf"
| "fmul NInf NInf = PInf"
| "fmul PInf NInf = NInf"
| "fmul NInf PInf = NInf"

fun fdiv :: "f32 \<Rightarrow> f32 \<Rightarrow> f32" where
  "fdiv (Fin a) (Fin b) =
     (if b = 0 then (if a = 0 then NaN else inf_of_sign (0 < a)) else round_f32 (a / b))"
| "fdiv NaN _ = NaN"
| "fdiv _ NaN = NaN"
| "fdiv (Fin a) PInf = Fin 0"
| "fdiv (Fin a) NInf = Fin 0"
| "fdiv PInf (Fin b) = inf_of_sign (0 \<le> b)"
| "fdiv NInf (Fin b) = inf_of_sign (b < 0)"
| "fdiv PInf PInf = NaN"
| "fdiv PInf NInf = NaN"
| "fdiv NInf PInf = NaN"
| "fdiv NInf NInf = NaN"

text \<open>
  The compound assignments \<open>p[i] *= g\<close> and \<open>p[i] += v\<close>, and \<open>clear\<close>
  (modelled from the spec, as above).
\<close>

definition fmul_at :: "f32 list \<Rightarrow> nat \<Rightarrow> f32 \<Rightarrow> f32 list" where
  "fmul_at p i g = p[i := fmul (p ! i) g]"

definition fadd_at :: "f32 list \<Rightarrow> nat \<Rightarrow> f32 \<Rightarrow> f32 list" where
  "fadd_at p i v = p[i := fadd (p ! i) v]"

definition clear_f32 :: "f32 list \<Rightarrow> SINT \<Rightarrow> f32 list" where
  "clear_f32 pBuffer numSamples =
     fold (\<lambda>i buf. buf[i := Fin 0]) [0..<nat numSamples] pBuffer"

text \<open>
  \<open>applyRampingGain\<close> in binary32. The delta
  \<open>(new_gain - old_gain) / CSAMPLE_GAIN(numSamples / 2)\<close> is an infinity or NaN
  when the divisor is zero, and then compares unequal to zero. In
  \<open>gain_delta * i\<close> the counter is converted to float.
\<close>

definition gain_delta_f32 :: "f32 \<Rightarrow> f32 \<Rightarrow> SINT \<Rightarrow> f32" where
  "gain_delta_f32 old_gain new_gain numSamples =
     fdiv (fsub new_gain old_gain) (f32_of_int (numSamples sdiv 2))"

definition ramp_gain_f32 :: "f32 \<Rightarrow> f32 \<Rightarrow> nat \<Rightarrow> f32" where
  "ramp_gain_f32 start_gain delta i = fadd start_gain (fmul delta (f32_of_int (int i)))"

definition applyRampingGain_f32 :: "f32 list \<Rightarrow> f32 \<Rightarrow> f32 \<Rightarrow> SINT \<Rightarrow> f32 list" where
  "applyRampingGain_f32 pBuffer old_gain new_gain numSamples =
     (if old_gain = Fin 1 \<and> new_gain = Fin 1 then pBuffer
      else if old_gain = Fin 0 \<and> new_gain = Fin 0 then clear_f32 pBuffer numSamples
      else
        (let delta = gain_delta_f32 old_gain new_gain numSamples in
         if delta \<noteq> Fin 0 then
           (let start_gain = fadd old_gain delta in
            fold (\<lambda>i buf.
                let gain = ramp_gain_f32 start_gain delta i in
                fmul_at (fmul_at buf (i * 2) gain) (i * 2 + 1) gain)
              [0..<nat (numSamples sdiv 2)] pBuffer)
         else fold (\<lambda>i buf. fmul_at buf i old_gain) [0..<nat numSamples] pBuffer))"

text \<open>
  \<open>mixMultichannelToMono\<close> in binary32; \<open>chCount\<close> is the engine channel count,
  converted to float in \<open>CSAMPLE_GAIN_ONE * chCount\<close>.
\<close>

definition mixMultichannelToMono_f32 :: "int \<Rightarrow> f32 list \<Rightarrow> f32 list \<Rightarrow> SINT \<Rightarrow> f32 list" where
  "mixMultichannelToMono_f32 chCount pDest pSrc numSamples =
     (let mixScale = fdiv (Fin 1) (fmul (Fin 1) (f32_of_int chCount)) in
      fold (\<lambda>i dest.
          let d0 = dest[i := Fin 0];
              d1 = fold (\<lambda>ch d. fadd_at d i (pSrc ! (i * nat chCount + ch)))
                     [0..<nat chCount] d0
          in fmul_at d1 i mixScale)
        [0..<nat (numSamples sdiv chCount)] pDest)"


section \<open>Loops that write each index once\<close>

lemma length_mul_at [simp]: "length (mul_at p i g) = length p"
  by (simp add: mul_at_def)

lemma length_add_at [simp]: "length (add_at p i v) = length p"
  by (simp add: add_at_def)

lemma fold_pointwise_length:
  "length (fold (\<lambda>i buf. buf[i := f i (buf ! i)]) [0..<k] p) = length p"
  by (induction k) simp_all

lemma fold_pointwise_nth:
  "j < length p \<Longrightarrow>
   fold (\<lambda>i buf. buf[i := f i (buf ! i)]) [0..<k] p ! j = (if j < k then f j (p ! j) else p ! j)"
proof (induction k arbitrary: j)
  case 0
  then show ?case by simp
next
  case (Suc k)
  let ?q = "fold (\<lambda>i buf. buf[i := f i (buf ! i)]) [0..<k] p"
  have len: "length ?q = length p" by (rule fold_pointwise_length)
  show ?case
  proof (cases "j = k")
    case True
    with Suc.prems Suc.IH [of k] len show ?thesis by simp
  next
    case False
    with Suc.prems Suc.IH [of j] len show ?thesis by (simp add: less_Suc_eq)
  qed
qed

lemma length_clear [simp]: "length (clear p n) = length p"
  unfolding clear_def by (rule fold_pointwise_length [of "\<lambda>_ _. 0::real"])

lemma clear_nth:
  "j < length p \<Longrightarrow> clear p n ! j = (if j < nat n then 0 else p ! j)"
  unfolding clear_def using fold_pointwise_nth [of j p "\<lambda>_ _. 0" "nat n"] by simp

lemma sdiv_nonneg: "0 \<le> n \<Longrightarrow> 0 < c \<Longrightarrow> (n::int) sdiv c = n div c"
  by (simp add: signed_divide_int_def sgn_if)



lemma ramp_loop_length:
  "length (fold (\<lambda>i buf. mul_at (mul_at buf (i * 2) (g i)) (i * 2 + 1) (g i)) [0..<k] p) =
   length p"
  by (induction k) simp_all

lemma ramp_loop_nth:
  "j < length p \<Longrightarrow>
   fold (\<lambda>i buf. mul_at (mul_at buf (i * 2) (g i)) (i * 2 + 1) (g i)) [0..<k] p ! j =
   (if j < 2 * k then p ! j * g (j div 2) else p ! j)"
proof (induction k arbitrary: j)
  case 0
  show ?case by simp
next
  case (Suc k)
  let ?q = "fold (\<lambda>i buf. mul_at (mul_at buf (i * 2) (g i)) (i * 2 + 1) (g i)) [0..<k] p"
  have len: "length ?q = length p" by (rule ramp_loop_length)
  consider "j = k * 2" | "j = k * 2 + 1" | "j < k * 2" | "k * 2 + 1 < j" by linarith
  then show ?case
  proof cases
    case 1
    with Suc.prems Suc.IH [of j] len show ?thesis by (simp add: mul_at_def)
  next
    case 2
    with Suc.prems Suc.IH [of j] len show ?thesis by (simp add: mul_at_def)
  next
    case 3
    with Suc.prems Suc.IH [of j] len show ?thesis by (simp add: mul_at_def)
  next
    case 4
    with Suc.prems Suc.IH [of j] len show ?thesis by (simp add: mul_at_def)
  qed
qed

lemma fold_add_at:
  "fold (\<lambda>ch d. add_at d i (f ch)) [0..<m] d0 = d0[i := d0 ! i + (\<Sum>ch<m. f ch)]"
proof (induction m)
  case 0
  show ?case by simp
next
  case (Suc m)
  show ?case
  proof (cases "i < length d0")
    case True
    with Suc show ?thesis by (simp add: add_at_def algebra_simps)
  next
    case False
    with Suc show ?thesis by (simp add: add_at_def list_update_beyond)
  qed
qed

lemma mono_frame:
  "mul_at (fold (\<lambda>ch d. add_at d i (f ch)) [0..<m] (dest[i := 0])) i s =
   dest[i := (\<Sum>ch<m. f ch) * s]"
  by (cases "i < length dest") (simp_all add: fold_add_at mul_at_def list_update_beyond)


lemma applyRampingGain_ramp:
  assumes "\<not> (g0 = 1 \<and> g1 = 1)" and "\<not> (g0 = 0 \<and> g1 = 0)"
    and "gain_delta g0 g1 n = Some step" and "step \<noteq> 0"
  shows "applyRampingGain buf g0 g1 n =
         fold (\<lambda>i b. mul_at (mul_at b (i * 2) (ramp_gain (g0 + step) step i)) (i * 2 + 1)
                  (ramp_gain (g0 + step) step i))
           [0..<nat (n sdiv 2)] buf"
  using assms by (auto simp: applyRampingGain_def Let_def)


section \<open>Rounding to binary32\<close>

lemma quantum_from_numeral:
  "quantum_from (numeral k) q x =
     (if \<bar>x\<bar> < 16777216 * q then q else quantum_from (pred_numeral k) (2 * q) x)"
  by (simp add: numeral_eq_Suc)

lemmas round_eval = round_f32_def quantum_def quantum_from_numeral round_half_even_def

lemmas f32_eval = f32_of_int_def fsub_def fneg_def inf_of_sign_def fmul_at_def fadd_at_def
  gain_delta_f32_def ramp_gain_f32_def signed_divide_int_def

lemma quantum_from_eq:
  assumes "0 < q0" and "j \<le> fuel"
    and "j = 0 \<or> 8388608 * (q0 * 2 ^ j) \<le> \<bar>x\<bar>"
    and "\<bar>x\<bar> < 16777216 * (q0 * 2 ^ j) \<or> j = fuel"
  shows "quantum_from fuel q0 x = q0 * 2 ^ j"
  using assms
proof (induction fuel arbitrary: q0 j)
  case 0
  then show ?case by simp
next
  case (Suc fuel)
  show ?case
  proof (cases j)
    case 0
    with Suc.prems show ?thesis by simp
  next
    case (Suc j')
    with Suc.prems(3) have big: "16777216 * (q0 * 2 ^ j') \<le> \<bar>x\<bar>" by simp
    have "q0 \<le> q0 * 2 ^ j'" using Suc.prems(1) by simp
    with big have "\<not> \<bar>x\<bar> < 16777216 * q0" by linarith
    moreover have "quantum_from fuel (2 * q0) x = (2 * q0) * 2 ^ j'"
    proof (rule Suc.IH)
      show "0 < 2 * q0" using Suc.prems(1) by simp
      show "j' \<le> fuel" using Suc.prems(2) Suc by simp
      show "j' = 0 \<or> 8388608 * (2 * q0 * 2 ^ j') \<le> \<bar>x\<bar>" using big by simp
      show "\<bar>x\<bar> < 16777216 * (2 * q0 * 2 ^ j') \<or> j' = fuel"
        using Suc.prems(4) Suc by simp
    qed
    ultimately show ?thesis using Suc by simp
  qed
qed

lemma quantum_from_ex:
  assumes "0 < q0"
  shows "\<exists>j\<le>fuel. quantum_from fuel q0 x = q0 * 2 ^ j \<and>
           (j = 0 \<or> 8388608 * (q0 * 2 ^ j) \<le> \<bar>x\<bar>) \<and>
           (\<bar>x\<bar> < 16777216 * (q0 * 2 ^ j) \<or> j = fuel)"
  using assms
proof (induction fuel arbitrary: q0)
  case 0
  then show ?case by simp
next
  case (Suc fuel)
  show ?case
  proof (cases "\<bar>x\<bar> < 16777216 * q0")
    case True
    then show ?thesis by (intro exI [of _ 0]) simp
  next
    case False
    from Suc.prems have "0 < 2 * q0" by simp
    from Suc.IH [OF this] obtain j where j: "j \<le> fuel"
      "quantum_from fuel (2 * q0) x = 2 * q0 * 2 ^ j"
      "j = 0 \<or> 8388608 * (2 * q0 * 2 ^ j) \<le> \<bar>x\<bar>"
      "\<bar>x\<bar> < 16777216 * (2 * q0 * 2 ^ j) \<or> j = fuel"
      by blast
    have "8388608 * (q0 * 2 ^ Suc j) \<le> \<bar>x\<bar>"
      using j(3) False by (cases "j = 0") auto
    with j False show ?thesis by (intro exI [of _ "Suc j"]) simp
  qed
qed

lemma qmin_pos: "0 < qmin" by (simp add: qmin_def)

lemma quantum_eq:
  assumes "j \<le> 253"
    and "j = 0 \<or> 8388608 * (qmin * 2 ^ j) \<le> \<bar>x\<bar>"
    and "\<bar>x\<bar> < 16777216 * (qmin * 2 ^ j) \<or> j = 253"
  shows "quantum x = qmin * 2 ^ j"
  unfolding quantum_def qmin_def [symmetric]
  using quantum_from_eq [OF qmin_pos assms] .

lemma quantum_ex:
  "\<exists>j\<le>253. quantum x = qmin * 2 ^ j \<and>
     (j = 0 \<or> 8388608 * (qmin * 2 ^ j) \<le> \<bar>x\<bar>) \<and>
     (\<bar>x\<bar> < 16777216 * (qmin * 2 ^ j) \<or> j = 253)"
  unfolding quantum_def qmin_def [symmetric]
  using quantum_from_ex [OF qmin_pos] .

lemma quantum_pos: "0 < quantum x"
  using quantum_ex [of x] qmin_pos by auto

lemma round_half_even_of_int [simp]: "round_half_even (real_of_int k) = k"
  by (simp add: round_half_even_def)

lemma round_half_even_bounds: "\<lfloor>y\<rfloor> \<le> round_half_even y \<and> round_half_even y \<le> \<lceil>y\<rceil>"
proof -
  have "\<lfloor>y\<rfloor> + 1 \<le> \<lceil>y\<rceil>" if "real_of_int \<lfloor>y\<rfloor> \<noteq> y"
    using that by (metis ceiling_altdef order_refl)
  moreover have "real_of_int \<lfloor>y\<rfloor> \<noteq> y" if "\<not> y - real_of_int \<lfloor>y\<rfloor> < 1 / 2"
    using that by auto
  ultimately show ?thesis
    by (auto simp: round_half_even_def Let_def)
qed

lemma round_half_even_err: "\<bar>real_of_int (round_half_even y) - y\<bar> \<le> 1 / 2"
  unfolding round_half_even_def Let_def by (auto; linarith)

lemma qmin_253: "qmin * 2 ^ 253 = 2 ^ 104"
  by (simp add: qmin_def)

lemma round_f32_exact:
  assumes "quantum r = q" and "r = q * real_of_int m" and "\<bar>r\<bar> < 2 ^ 128"
  shows "round_f32 r = Fin r"
proof -
  have "0 < q" using assms(1) quantum_pos [of r] by simp
  then have "r / q = real_of_int m" using assms(2) by simp
  then have "quantum r * real_of_int (round_half_even (r / quantum r)) = r"
    using assms(1,2) by simp
  then show ?thesis
    using assms(3) unfolding round_f32_def Let_def by (simp add: abs_less_iff)
qed

lemma round_half_even_abs_le:
  assumes "\<bar>y\<bar> \<le> real_of_int N"
  shows "\<bar>round_half_even y\<bar> \<le> N"
proof -
  have "\<lceil>y\<rceil> \<le> N" using assms by (simp add: ceiling_le_iff abs_le_iff)
  moreover have "- N \<le> \<lfloor>y\<rfloor>" using assms by (simp add: le_floor_iff abs_le_iff)
  ultimately show ?thesis using round_half_even_bounds [of y] by linarith
qed

lemma round_half_even_abs_ge:
  assumes "real_of_int N \<le> \<bar>y\<bar>"
  shows "N \<le> \<bar>round_half_even y\<bar>"
proof (cases "0 \<le> y")
  case True
  with assms have "N \<le> \<lfloor>y\<rfloor>" by (simp add: le_floor_iff)
  then show ?thesis using round_half_even_bounds [of y] by linarith
next
  case False
  with assms have "real_of_int N \<le> - y" by simp
  then have "\<lceil>y\<rceil> \<le> - N" by (simp add: ceiling_le_iff)
  then show ?thesis using round_half_even_bounds [of y] by linarith
qed

lemma round_f32_idem:
  assumes "round_f32 x = Fin r"
  shows "round_f32 r = Fin r"
proof -
  obtain j where j: "j \<le> 253" "quantum x = qmin * 2 ^ j"
    "j = 0 \<or> 8388608 * (qmin * 2 ^ j) \<le> \<bar>x\<bar>"
    "\<bar>x\<bar> < 16777216 * (qmin * 2 ^ j) \<or> j = 253"
    using quantum_ex [of x] by blast
  define q where "q = qmin * 2 ^ j"
  define k where "k = round_half_even (x / q)"
  have qpos: "0 < q" using qmin_pos by (simp add: q_def)
  have r: "r = q * real_of_int k" and rb: "\<bar>r\<bar> < 2 ^ 128"
    using assms unfolding round_f32_def Let_def j(2) q_def [symmetric] k_def [symmetric]
    by (auto split: if_splits)
  have absr: "\<bar>r\<bar> = q * real_of_int \<bar>k\<bar>" using qpos by (simp add: r abs_mult)
  have small: "\<bar>x\<bar> < 16777216 * q"
  proof (rule ccontr)
    assume n: "\<not> \<bar>x\<bar> < 16777216 * q"
    with j(4) have j253: "j = 253" by (simp add: q_def)
    from n qpos have "real_of_int 16777216 \<le> \<bar>x / q\<bar>" by (simp add: le_divide_eq)
    then have "16777216 \<le> \<bar>k\<bar>" unfolding k_def by (rule round_half_even_abs_ge)
    then have "real_of_int 16777216 \<le> real_of_int \<bar>k\<bar>" by (simp only: of_int_le_iff)
    then have "q * 16777216 \<le> q * real_of_int \<bar>k\<bar>" using qpos by simp
    moreover have "q = 2 ^ 104" using j253 qmin_253 by (simp add: q_def)
    ultimately show False using rb absr by simp
  qed
  then have "\<bar>x / q\<bar> \<le> real_of_int 16777216" using qpos by (simp add: divide_le_eq)
  then have kle: "\<bar>k\<bar> \<le> 16777216" unfolding k_def by (rule round_half_even_abs_le)
  consider "\<bar>k\<bar> = 16777216" | "8388608 \<le> \<bar>k\<bar>" "\<bar>k\<bar> < 16777216" | "\<bar>k\<bar> < 8388608"
    using kle by linarith
  then show ?thesis
  proof cases
    case 1
    then have ar: "\<bar>r\<bar> = 16777216 * q" using absr by simp
    have "j \<noteq> 253"
    proof
      assume "j = 253"
      then have "q = 2 ^ 104" using qmin_253 by (simp add: q_def)
      with ar rb show False by simp
    qed
    with j(1) have j1: "Suc j \<le> 253" by simp
    have "quantum r = qmin * 2 ^ Suc j"
      by (rule quantum_eq [OF j1]) (use ar qpos in \<open>simp_all add: q_def\<close>)
    then have qr: "quantum r = 2 * q" by (simp add: q_def)
    have "k = 16777216 \<or> k = - 16777216" using 1 by linarith
    then have "even k" by auto
    then obtain m where "k = 2 * m" by (auto elim: evenE)
    then have "r = (2 * q) * real_of_int m" by (simp add: r)
    from round_f32_exact [OF qr this rb] show ?thesis .
  next
    case 2
    have "8388608 * q \<le> \<bar>r\<bar>"
    proof -
      from 2(1) have "real_of_int 8388608 \<le> real_of_int \<bar>k\<bar>" by (simp only: of_int_le_iff)
      then show ?thesis using qpos absr by simp
    qed
    moreover have "\<bar>r\<bar> < 16777216 * q"
    proof -
      from 2(2) have "real_of_int \<bar>k\<bar> < real_of_int 16777216" by (simp only: of_int_less_iff)
      then show ?thesis using qpos absr by simp
    qed
    ultimately have "quantum r = qmin * 2 ^ j"
      by (intro quantum_eq [OF j(1)]) (simp_all add: q_def)
    then have "quantum r = q" by (simp add: q_def)
    from round_f32_exact [OF this r rb] show ?thesis .
  next
    case 3
    have j0: "j = 0"
    proof (rule ccontr)
      assume "j \<noteq> 0"
      with j(3) have "8388608 * q \<le> \<bar>x\<bar>" by (simp add: q_def)
      then have "real_of_int 8388608 \<le> \<bar>x / q\<bar>" using qpos by (simp add: le_divide_eq)
      then have "8388608 \<le> \<bar>k\<bar>" unfolding k_def by (rule round_half_even_abs_ge)
      with 3 show False by simp
    qed
    have "\<bar>r\<bar> < 16777216 * q"
    proof -
      from 3 have "real_of_int \<bar>k\<bar> < real_of_int 16777216" by (simp only: of_int_less_iff) 
      then show ?thesis using qpos absr by simp
    qed
    then have "quantum r = qmin * 2 ^ 0"
      by (intro quantum_eq) (simp_all add: q_def j0)
    then have "quantum r = q" by (simp add: q_def j0)
    from round_f32_exact [OF this r rb] show ?thesis .
  qed
qed

lemma round_f32_double:
  assumes "round_f32 v = Fin v" and "\<bar>v + v\<bar> < 2 ^ 128"
  shows "round_f32 (v + v) = Fin (v + v)"
proof -
  obtain j where j: "j \<le> 253" "quantum v = qmin * 2 ^ j"
    "j = 0 \<or> 8388608 * (qmin * 2 ^ j) \<le> \<bar>v\<bar>"
    "\<bar>v\<bar> < 16777216 * (qmin * 2 ^ j) \<or> j = 253"
    using quantum_ex [of v] by blast
  define q where "q = qmin * 2 ^ j"
  define k where "k = round_half_even (v / q)"
  have qpos: "0 < q" using qmin_pos by (simp add: q_def)
  have v: "v = q * real_of_int k"
    using assms(1) unfolding round_f32_def Let_def j(2) q_def [symmetric] k_def [symmetric]
    by (auto split: if_splits)
  have j253: "j \<noteq> 253"
  proof
    assume e: "j = 253"
    then have q104: "q = 2 ^ 104" using qmin_253 by (simp add: q_def)
    from e j(3) have "8388608 * q \<le> \<bar>v\<bar>" by (simp add: q_def)
    with q104 assms(2) show False by (simp add: abs_if split: if_splits)
  qed
  with j(4) have small: "\<bar>v\<bar> < 16777216 * q" by (simp add: q_def)
  show ?thesis
  proof (cases "j = 0 \<and> \<bar>v + v\<bar> < 16777216 * q")
    case True
    then have "quantum (v + v) = qmin * 2 ^ 0"
      by (intro quantum_eq) (auto simp: q_def)
    then have "quantum (v + v) = q" using True by (simp add: q_def)
    moreover have "v + v = q * real_of_int (2 * k)" by (simp add: v)
    ultimately show ?thesis using assms(2) by (rule round_f32_exact)
  next
    case False
    have big: "8388608 * (2 * q) \<le> \<bar>v + v\<bar>"
    proof (cases "j = 0")
      case True
      with False show ?thesis by simp
    next
      case False
      with j(3) have "8388608 * q \<le> \<bar>v\<bar>" by (simp add: q_def)
      then show ?thesis by (simp add: abs_if split: if_splits)
    qed
    have lt: "\<bar>v + v\<bar> < 16777216 * (2 * q)" using small by (simp add: abs_if split: if_splits)
    from j253 j(1) have j1: "Suc j \<le> 253" by simp
    have "quantum (v + v) = qmin * 2 ^ Suc j"
      by (rule quantum_eq [OF j1]) (use big lt in \<open>simp_all add: q_def\<close>)
    then have "quantum (v + v) = 2 * q" by (simp add: q_def)
    moreover have "v + v = (2 * q) * real_of_int k" by (simp add: v)
    ultimately show ?thesis using assms(2) by (rule round_f32_exact)
  qed
qed

lemma quantum_le: "quantum x \<le> 2 ^ 104"
proof -
  obtain j where j: "j \<le> 253" "quantum x = qmin * 2 ^ j"
    using quantum_ex [of x] by blast
  have p: "(2::real) ^ j \<le> 2 ^ 253" using j(1) by (intro power_increasing) simp_all
  have "qmin * 2 ^ j \<le> qmin * 2 ^ 253"
    by (rule mult_left_mono [OF p less_imp_le [OF qmin_pos]])
  then show ?thesis by (simp only: j(2) qmin_253)
qed

lemma round_f32_finite:
  assumes "\<bar>x\<bar> \<le> 2 ^ 127"
  shows "\<exists>r. round_f32 x = Fin r"
proof -
  define q where "q = quantum x"
  define k where "k = round_half_even (x / q)"
  have qpos: "0 < q" and qle: "q \<le> 2 ^ 104"
    using quantum_pos [of x] quantum_le [of x] by (simp_all add: q_def)
  have "\<bar>q * real_of_int k - x\<bar> = q * \<bar>real_of_int k - x / q\<bar>"
  proof -
    have "q * real_of_int k - x = q * (real_of_int k - x / q)"
      using qpos by (simp add: algebra_simps)
    then show ?thesis using qpos by (simp add: abs_mult)
  qed
  also have "\<dots> \<le> q * (1 / 2)"
    using round_half_even_err [of "x / q"] qpos unfolding k_def by (intro mult_left_mono) simp_all
  also have "\<dots> \<le> 2 ^ 103" using qle by simp
  finally have "\<bar>q * real_of_int k - x\<bar> \<le> 2 ^ 103" .
  with assms have "\<bar>q * real_of_int k\<bar> < 2 ^ 128" by (simp add: abs_if split: if_splits)
  then show ?thesis
    unfolding round_f32_def Let_def q_def [symmetric] k_def [symmetric]
    by (simp add: abs_less_iff)
qed

lemma round_f32_ge_one:
  assumes "1 \<le> x"
  shows "round_f32 x = PInf \<or> (\<exists>c. round_f32 x = Fin c \<and> 1 \<le> c)"
proof -
  obtain j where j: "j \<le> 253" "quantum x = qmin * 2 ^ j"
    "j = 0 \<or> 8388608 * (qmin * 2 ^ j) \<le> \<bar>x\<bar>"
    using quantum_ex [of x] by blast
  define q where "q = qmin * 2 ^ j"
  define k where "k = round_half_even (x / q)"
  have qpos: "0 < q" using qmin_pos by (simp add: q_def)
  have "1 \<le> q * real_of_int k"
  proof (cases "j \<le> 149")
    case True
    have "(2::real) ^ 149 = 2 ^ j * 2 ^ (149 - j)"
      using True by (simp flip: power_add)
    then have m: "q * real_of_int (2 ^ (149 - j)) = 1" by (simp add: q_def qmin_def)
    then have "real_of_int (2 ^ (149 - j)) = 1 / q" using qpos by (simp add: field_simps)
    also have "\<dots> \<le> \<bar>x / q\<bar>" using assms qpos by (simp add: divide_right_mono)
    finally have "2 ^ (149 - j) \<le> \<bar>k\<bar>" unfolding k_def by (rule round_half_even_abs_ge)
    moreover have "0 \<le> k"
    proof -
      have "0 \<le> x / q" using assms qpos by simp
      then have "0 \<le> \<lfloor>x / q\<rfloor>" by simp
      then show ?thesis unfolding k_def using round_half_even_bounds [of "x / q"] by linarith
    qed
    ultimately have "2 ^ (149 - j) \<le> k" by simp
    then have "real_of_int (2 ^ (149 - j)) \<le> real_of_int k" by (simp only: of_int_le_iff)
    then have "q * real_of_int (2 ^ (149 - j)) \<le> q * real_of_int k"
      using qpos by (simp only: mult_le_cancel_left_pos)
    with m show ?thesis by simp
  next
    case False
    then have j0: "j \<noteq> 0" by simp
    with j(3) have "8388608 * q \<le> \<bar>x\<bar>" by (simp add: q_def)
    then have "real_of_int 8388608 \<le> \<bar>x / q\<bar>" using qpos by (simp add: le_divide_eq)
    then have "8388608 \<le> \<bar>k\<bar>" unfolding k_def by (rule round_half_even_abs_ge)
    moreover have "0 \<le> k"
    proof -
      have "0 \<le> x / q" using assms qpos by simp
      then have "0 \<le> \<lfloor>x / q\<rfloor>" by simp
      then show ?thesis unfolding k_def using round_half_even_bounds [of "x / q"] by linarith
    qed
    ultimately have "8388608 \<le> k" by simp
    then have "real_of_int 8388608 \<le> real_of_int k" by (simp only: of_int_le_iff)
    then have k8: "q * 8388608 \<le> q * real_of_int k" using qpos by simp
    have "(2::real) ^ 149 \<le> 2 ^ j" using False by (intro power_increasing) simp_all
    then have "1 \<le> q" by (simp add: q_def qmin_def)
    with k8 show ?thesis by linarith
  qed
  then show ?thesis
    unfolding round_f32_def Let_def j(2) q_def [symmetric] k_def [symmetric] by auto
qed

lemma round_f32_zero [simp]: "round_f32 0 = Fin 0"
  by (simp add: round_f32_def Let_def round_half_even_def)

text \<open>The scale \<open>1 / (1 * chCount)\<close> is a finite number for every positive count.\<close>

lemma mixScale_finite:
  assumes "0 < chCount"
  shows "\<exists>s. fdiv (Fin 1) (fmul (Fin 1) (f32_of_int chCount)) = Fin s"
proof -
  have "1 \<le> real_of_int chCount" using assms by simp
  from round_f32_ge_one [OF this]
  consider "f32_of_int chCount = PInf"
    | c where "f32_of_int chCount = Fin c" "1 \<le> c" "round_f32 (real_of_int chCount) = Fin c"
    by (auto simp: f32_of_int_def)
  then show ?thesis
  proof cases
    case 1
    then show ?thesis by (simp add: inf_of_sign_def)
  next
    case 2
    from round_f32_idem [OF 2(3)] have "fmul (Fin 1) (f32_of_int chCount) = Fin c"
      by (simp add: 2(1))
    moreover have "\<exists>s. round_f32 (1 / c) = Fin s"
      using 2(2) by (intro round_f32_finite) (simp add: abs_if divide_le_eq)
    ultimately show ?thesis using 2(2) by auto
  qed
qed

section \<open>Loops in binary32\<close>

lemma length_fmul_at [simp]: "length (fmul_at p i g) = length p"
  by (simp add: fmul_at_def)

lemma length_fadd_at [simp]: "length (fadd_at p i v) = length p"
  by (simp add: fadd_at_def)

lemma framp_loop_length:
  "length (fold (\<lambda>i buf. fmul_at (fmul_at buf (i * 2) (g i)) (i * 2 + 1) (g i)) [0..<k] p) =
   length p"
  by (induction k) simp_all

lemma framp_loop_nth:
  "j < length p \<Longrightarrow>
   fold (\<lambda>i buf. fmul_at (fmul_at buf (i * 2) (g i)) (i * 2 + 1) (g i)) [0..<k] p ! j =
   (if j < 2 * k then fmul (p ! j) (g (j div 2)) else p ! j)"
proof (induction k arbitrary: j)
  case 0
  show ?case by simp
next
  case (Suc k)
  let ?q = "fold (\<lambda>i buf. fmul_at (fmul_at buf (i * 2) (g i)) (i * 2 + 1) (g i)) [0..<k] p"
  have len: "length ?q = length p" by (rule framp_loop_length)
  consider "j = k * 2" | "j = k * 2 + 1" | "j < k * 2" | "k * 2 + 1 < j" by linarith
  then show ?case
  proof cases
    case 1
    with Suc.prems Suc.IH [of j] len show ?thesis by (simp add: fmul_at_def)
  next
    case 2
    with Suc.prems Suc.IH [of j] len show ?thesis by (simp add: fmul_at_def)
  next
    case 3
    with Suc.prems Suc.IH [of j] len show ?thesis by (simp add: fmul_at_def)
  next
    case 4
    with Suc.prems Suc.IH [of j] len show ?thesis by (simp add: fmul_at_def)
  qed
qed

lemma fadd_round_zero: "fadd (round_f32 x) (Fin 0) = round_f32 x"
proof (cases "round_f32 x")
  case (Fin r)
  then show ?thesis using round_f32_idem [OF Fin] by simp
qed simp_all

lemma fadd_fadd_zero: "fadd (fadd a b) (Fin 0) = fadd a b"
  by (cases a; cases b) (simp_all add: fadd_round_zero)

lemma ramp_gain_f32_first:
  "ramp_gain_f32 (fadd g0 (Fin step)) (Fin step) 0 = fadd g0 (Fin step)"
  by (simp add: ramp_gain_f32_def f32_of_int_def fadd_fadd_zero)

lemma applyRampingGain_f32_ramp:
  assumes "\<not> (g0 = Fin 1 \<and> g1 = Fin 1)" and "\<not> (g0 = Fin 0 \<and> g1 = Fin 0)"
    and "gain_delta_f32 g0 g1 n = Fin step" and "step \<noteq> 0"
  shows "applyRampingGain_f32 buf g0 g1 n =
         fold (\<lambda>i b. fmul_at (fmul_at b (i * 2) (ramp_gain_f32 (fadd g0 (Fin step)) (Fin step) i))
                  (i * 2 + 1) (ramp_gain_f32 (fadd g0 (Fin step)) (Fin step) i))
           [0..<nat (n sdiv 2)] buf"
  using assms by (auto simp: applyRampingGain_f32_def Let_def)


lemma fold_fadd_at:
  "fold (\<lambda>ch d. fadd_at d i (f ch)) [0..<m] d0 =
   d0[i := fold (\<lambda>ch acc. fadd acc (f ch)) [0..<m] (d0 ! i)]"
proof (induction m)
  case 0
  show ?case by simp
next
  case (Suc m)
  show ?case
  proof (cases "i < length d0")
    case True
    with Suc show ?thesis by (simp add: fadd_at_def)
  next
    case False
    with Suc show ?thesis by (simp add: fadd_at_def list_update_beyond)
  qed
qed

lemma mono_frame_f32:
  "fmul_at (fold (\<lambda>ch d. fadd_at d i (f ch)) [0..<m] (dest[i := Fin 0])) i s =
   dest[i := fmul (fold (\<lambda>ch acc. fadd acc (f ch)) [0..<m] (Fin 0)) s]"
  by (cases "i < length dest") (simp_all add: fold_fadd_at fmul_at_def list_update_beyond)

lemma fold_fadd_zero:
  "(\<And>ch. ch < m \<Longrightarrow> f ch = Fin 0) \<Longrightarrow>
   fold (\<lambda>ch acc. fadd acc (f ch)) [0..<m] (Fin 0) = Fin 0"
  by (induction m) simp_all

lemma mixScale_stereo: "fdiv (Fin 1) (fmul (Fin 1) (f32_of_int 2)) = Fin (1 / 2)"
proof -
  have r: "round_f32 2 = Fin 2" "round_f32 (1 / 2) = Fin (1 / 2)"
    by (simp_all add: round_eval)
  show ?thesis by (simp add: f32_of_int_def r)
qed


section \<open>Static gain\<close>

text \<open>
  Claim C7. For every \<open>n > 0\<close> and every buffer of \<open>n\<close> samples,
  \<open>applyGain(buf, 1.0, n)\<close> leaves every sample unchanged and
  \<open>applyGain(buf, 0.0, n)\<close> sets every sample to zero.
\<close>

theorem applyGain_one_zero:
  assumes "0 < n" and "length buf = nat n"
  shows "applyGain buf 1 n = buf \<and> applyGain buf 0 n = replicate (nat n) 0"
  using assms by (auto simp: applyGain_def clear_nth intro!: nth_equalityI)

theorem applyGain_one_zero_witness:
  "(0::int) < 2 \<and> length [2, - 3 :: real] = nat 2 \<and>
   applyGain [2, - 3] 1 2 = [2, - 3] \<and> applyGain [2, - 3] 0 2 = replicate (nat 2) 0"
  using applyGain_one_zero [of 2 "[2, - 3]"] by simp

section \<open>Peak amplitude\<close>

text \<open>
  Claim C1 says that \<open>maxAbsAmplitude\<close> returns the maximum of \<open>|pBuffer[i]|\<close>
  over the whole buffer, a value that is never negative and never below
  \<open>|pBuffer[0]|\<close>. The function takes the absolute value of every sample but the
  first: on the buffer \<open>[-3, 1]\<close> it returns 1 where the peak is 3, and on \<open>[-1]\<close>
  it returns the negative number \<open>-1\<close> where the peak is 1.
\<close>

theorem maxAbsAmplitude_first_sample_signed:
  "maxAbsAmplitude [- 3, 1] 2 = 1 \<and> peak_abs_spec [- 3, 1] 2 = 3 \<and>
   maxAbsAmplitude [- 1] 1 = - 1 \<and> peak_abs_spec [- 1] 1 = 1"
  by (simp add: maxAbsAmplitude_def peak_abs_spec_def eval_nat_numeral)

section \<open>Division in the gain delta\<close>

text \<open>
  Claim C8 says that a ramping-gain operation called with a nonzero \<open>numSamples\<close>
  that gets past its fast paths divides by a nonzero \<open>numSamples / 2\<close>. With
  \<open>numSamples = 1\<close> every one of the four operations gets past its fast paths
  for the gains 0 and 1, and the divisor \<open>1 / 2\<close> is zero.
\<close>

theorem ramp_divisor_zero_counterexample:
  "reaches_gain_delta ApplyRampingGain 0 1 \<and> reaches_gain_delta AddWithRampingGain 0 1 \<and>
   reaches_gain_delta CopyWithRampingGain 0 1 \<and> reaches_gain_delta Copy1WithRampingGain 0 1 \<and>
   (1::int) \<noteq> 0 \<and> ramp_divisor 1 = 0 \<and> gain_delta 0 1 1 = None"
  by (simp add: ramp_divisor_def gain_delta_def signed_divide_int_def)

text \<open>
  Claim C8, amended. For every call of \<open>applyRampingGain\<close>, \<open>addWithRampingGain\<close>,
  \<open>copyWithRampingGain\<close> or \<open>copy1WithRampingGain\<close> whose \<open>numSamples\<close> has
  magnitude at least 2 (at least one whole stereo frame) and that gets past the
  fast paths, the divisor \<open>numSamples / 2\<close> is nonzero and the gain delta is the
  quotient \<open>(new_gain - old_gain) / (numSamples / 2)\<close>.
\<close>

theorem ramp_divisor_nonzero:
  assumes "2 \<le> \<bar>numSamples\<bar>" and "reaches_gain_delta op old_gain new_gain"
  shows "ramp_divisor numSamples \<noteq> 0 \<and>
         gain_delta old_gain new_gain numSamples =
           Some ((new_gain - old_gain) / real_of_int (ramp_divisor numSamples))"
proof -
  from assms(1) have "1 \<le> \<bar>numSamples\<bar> div 2" by linarith
  then have "ramp_divisor numSamples \<noteq> 0"
    using assms(1) by (auto simp: ramp_divisor_def signed_divide_int_def sgn_if)
  then show ?thesis by (simp add: gain_delta_def)
qed

theorem ramp_divisor_nonzero_witness:
  "(2::int) \<le> \<bar>2\<bar> \<and> reaches_gain_delta Copy1WithRampingGain 0 1 \<and>
   ramp_divisor 2 \<noteq> 0 \<and> gain_delta 0 1 2 = Some ((1 - 0) / real_of_int (ramp_divisor 2))"
  using ramp_divisor_nonzero [of 2 Copy1WithRampingGain 0 1] by simp

section \<open>Stem mixdown with an empty exclusion mask\<close>

text \<open>
  Claim C9. For every destination, source, frame count and channel count, the
  masked overload of \<open>mixMultichannelToStereo\<close> called with
  \<open>excludeChannelMask = 0\<close> writes the same destination contents as the
  unmasked overload.
\<close>

theorem mixMultichannelToStereo_mask_zero:
  "mixMultichannelToStereo_masked pDest pSrc numFrames numChannels 0 =
   mixMultichannelToStereo pDest pSrc numFrames numChannels"
  by (simp add: mixMultichannelToStereo_masked_def mixMultichannelToStereo_def)

section \<open>Ramping gain\<close>

text \<open>
  Claim C2 says that for an even \<open>n \<ge> 2\<close> and a nonzero delta the ramp
  multiplies both samples of stereo frame \<open>i\<close> by \<open>g0 + (i+1)*step\<close> with
  \<open>step = (g1 - g0)/(n/2)\<close>, that the first applied gain is one step away from
  \<open>g0\<close>, and that the last applied gain is one step away from \<open>g1\<close>. The last
  part fails: for \<open>g0 = 0\<close>, \<open>g1 = 1\<close> and \<open>n = 2\<close> the step is 1 and the only
  frame, which is also the last one, is multiplied by \<open>g1 = 1\<close> itself, neither by
  \<open>g1 - step\<close> nor by \<open>g1 + step\<close>. The gains are also rounded: for \<open>g0 = 0\<close>,
  \<open>g1 = 1\<close> and \<open>n = 6\<close> the first frame is multiplied by
  \<open>11184811/33554432\<close>, the binary32 value next to \<open>1/3\<close>, and for
  \<open>g0 = 0.1f\<close>, \<open>g1 = 0.7f\<close> and \<open>n = 4\<close> the last frame is multiplied by
  \<open>5872025/8388608\<close>, the binary32 value just below \<open>g1 = 11744051/16777216\<close>.
\<close>

theorem applyRampingGain_last_gain_counterexample:
  "gain_delta_f32 (Fin 0) (Fin 1) 2 = Fin 1 \<and>
   applyRampingGain_f32 [Fin 1, Fin 1] (Fin 0) (Fin 1) 2 = [fmul (Fin 1) (Fin 1), fmul (Fin 1) (Fin 1)] \<and>
   applyRampingGain_f32 [Fin 1, Fin 1] (Fin 0) (Fin 1) 2 \<noteq>
     [fmul (Fin 1) (fsub (Fin 1) (Fin 1)), fmul (Fin 1) (fsub (Fin 1) (Fin 1))] \<and>
   applyRampingGain_f32 [Fin 1, Fin 1] (Fin 0) (Fin 1) 2 \<noteq>
     [fmul (Fin 1) (fadd (Fin 1) (Fin 1)), fmul (Fin 1) (fadd (Fin 1) (Fin 1))] \<and>
   applyRampingGain_f32 [Fin 1, Fin 1, Fin 1, Fin 1, Fin 1, Fin 1] (Fin 0) (Fin 1) 6 ! 0 =
     Fin (11184811 / 33554432) \<and>
   (11184811 / 33554432 :: real) \<noteq> 0 + (0 + 1) * ((1 - 0) / 3) \<and>
   applyRampingGain_f32 [Fin 1, Fin 1, Fin 1, Fin 1] (Fin (13421773 / 134217728))
     (Fin (11744051 / 16777216)) 4 ! 3 = Fin (5872025 / 8388608) \<and>
   (5872025 / 8388608 :: real) \<noteq> 11744051 / 16777216"
proof -
  have r: "round_f32 0 = Fin 0" "round_f32 1 = Fin 1" "round_f32 2 = Fin 2" "round_f32 3 = Fin 3"
    "round_f32 (1 / 3) = Fin (11184811 / 33554432)"
    "round_f32 (11184811 / 33554432) = Fin (11184811 / 33554432)"
    "round_f32 (11184811 / 16777216) = Fin (11184811 / 16777216)"
    "round_f32 (33554433 / 33554432) = Fin 1"
    "round_f32 (80530635 / 134217728) = Fin (10066329 / 16777216)"
    "round_f32 (10066329 / 33554432) = Fin (10066329 / 33554432)"
    "round_f32 (53687089 / 134217728) = Fin (3355443 / 8388608)"
    "round_f32 (3355443 / 8388608) = Fin (3355443 / 8388608)"
    "round_f32 (23488101 / 33554432) = Fin (5872025 / 8388608)"
    "round_f32 (5872025 / 8388608) = Fin (5872025 / 8388608)"
    by (simp_all add: round_eval)
  show ?thesis
    by (simp add: applyRampingGain_f32_def f32_eval r Let_def eval_nat_numeral)
qed

text \<open>
  Claim C2, amended. For every even \<open>n \<ge> 2\<close>, every buffer of at least \<open>n\<close>
  samples and gains that are not both one and not both zero, with a computed delta
  \<open>step = (g1 - g0) / (n/2)\<close> that is a nonzero number, \<open>applyRampingGain\<close>
  multiplies both samples of stereo frame \<open>i\<close> by the gain
  \<open>(g0 + step) + step*i\<close>, where the difference, the quotient, the sums and the
  products are each rounded to binary32. The gain applied to the first frame is
  the rounded sum \<open>g0 + step\<close>, one ramp-step past \<open>g0\<close>, and the gain applied to
  the last frame is \<open>(g0 + step) + step*(n/2 - 1)\<close> with the same roundings.
  Computed without rounding, \<open>(g0 + step) + step*i\<close> is \<open>g0 + (i+1)*step\<close> and
  the gain of the last frame is \<open>g1\<close> (the last two conjuncts, on real numbers
  \<open>a\<close>, \<open>b\<close>, \<open>s\<close>).
\<close>

theorem applyRampingGain_f32_frames:
  assumes "2 \<le> n" and "even n" and "nat n \<le> length buf"
    and "\<not> (g0 = Fin 1 \<and> g1 = Fin 1)" and "\<not> (g0 = Fin 0 \<and> g1 = Fin 0)"
    and "gain_delta_f32 g0 g1 n = Fin step" and "step \<noteq> 0"
    and "i < nat (n div 2)"
  shows "Fin step = fdiv (fsub g1 g0) (f32_of_int (n div 2)) \<and>
         applyRampingGain_f32 buf g0 g1 n ! (i * 2) =
           fmul (buf ! (i * 2))
             (fadd (fadd g0 (Fin step)) (fmul (Fin step) (f32_of_int (int i)))) \<and>
         applyRampingGain_f32 buf g0 g1 n ! (i * 2 + 1) =
           fmul (buf ! (i * 2 + 1))
             (fadd (fadd g0 (Fin step)) (fmul (Fin step) (f32_of_int (int i)))) \<and>
         applyRampingGain_f32 buf g0 g1 n ! 0 = fmul (buf ! 0) (fadd g0 (Fin step)) \<and>
         applyRampingGain_f32 buf g0 g1 n ! 1 = fmul (buf ! 1) (fadd g0 (Fin step)) \<and>
         applyRampingGain_f32 buf g0 g1 n ! (nat n - 2) =
           fmul (buf ! (nat n - 2))
             (fadd (fadd g0 (Fin step)) (fmul (Fin step) (f32_of_int (n div 2 - 1)))) \<and>
         applyRampingGain_f32 buf g0 g1 n ! (nat n - 1) =
           fmul (buf ! (nat n - 1))
             (fadd (fadd g0 (Fin step)) (fmul (Fin step) (f32_of_int (n div 2 - 1)))) \<and>
         (a + s) + s * real i = a + (real i + 1) * s \<and>
         (a + (b - a) / real_of_int (n div 2)) +
           (b - a) / real_of_int (n div 2) * real_of_int (n div 2 - 1) = b"
proof -
  let ?k = "nat (n div 2)"
  let ?g = "ramp_gain_f32 (fadd g0 (Fin step)) (Fin step)"
  let ?R = "applyRampingGain_f32 buf g0 g1 n"
  have sd: "n sdiv 2 = n div 2" using assms(1) by (simp add: sdiv_nonneg)
  have k: "2 * ?k = nat n" "0 < ?k" using assms(1,2) by auto
  have step: "Fin step = fdiv (fsub g1 g0) (f32_of_int (n div 2))"
    using assms(6) by (simp add: gain_delta_f32_def sd)
  have nth: "?R ! j = fmul (buf ! j) (?g (j div 2))" if "j < nat n" for j
  proof -
    from that assms(3) have "j < length buf" by simp
    then show ?thesis
      unfolding applyRampingGain_f32_ramp [OF assms(4-7)] sd
      using that k framp_loop_nth [of j buf ?g ?k] by simp
  qed
  have g: "?g m = fadd (fadd g0 (Fin step)) (fmul (Fin step) (f32_of_int (int m)))" for m
    by (simp add: ramp_gain_f32_def)
  have lastk: "int (?k - 1) = n div 2 - 1" using k(2) by simp
  have i2: "i * 2 < nat n" "i * 2 + 1 < nat n" using assms(8) k by linarith+
  have d2: "(i * 2) div 2 = i" "(i * 2 + 1) div 2 = i" by simp_all
  have l2: "nat n - 2 < nat n" "nat n - 1 < nat n" "(nat n - 2) div 2 = ?k - 1"
    "(nat n - 1) div 2 = ?k - 1" "0 < nat n" "1 < nat n"
    using k assms(1) by linarith+
  have fa: "?R ! (i * 2) =
      fmul (buf ! (i * 2)) (fadd (fadd g0 (Fin step)) (fmul (Fin step) (f32_of_int (int i))))"
    using nth [OF i2(1)] unfolding d2 g .
  have fb: "?R ! (i * 2 + 1) =
      fmul (buf ! (i * 2 + 1)) (fadd (fadd g0 (Fin step)) (fmul (Fin step) (f32_of_int (int i))))"
    using nth [OF i2(2)] unfolding d2 g .
  have fc: "?R ! 0 = fmul (buf ! 0) (fadd g0 (Fin step))"
    using nth [OF l2(5)] by (simp add: ramp_gain_f32_first)
  have fd: "?R ! 1 = fmul (buf ! 1) (fadd g0 (Fin step))"
    using nth [OF l2(6)] by (simp add: ramp_gain_f32_first)
  have fe: "?R ! (nat n - 2) = fmul (buf ! (nat n - 2))
      (fadd (fadd g0 (Fin step)) (fmul (Fin step) (f32_of_int (n div 2 - 1))))"
    using nth [OF l2(1)] unfolding l2(3) g lastk .
  have ff: "?R ! (nat n - 1) = fmul (buf ! (nat n - 1))
      (fadd (fadd g0 (Fin step)) (fmul (Fin step) (f32_of_int (n div 2 - 1))))"
    using nth [OF l2(2)] unfolding l2(4) g lastk .
  have x1: "(a + s) + s * real i = a + (real i + 1) * s"
    by (simp add: algebra_simps)
  have "real_of_int (n div 2) \<noteq> 0" using assms(1) by simp
  then have x2: "(a + (b - a) / real_of_int (n div 2)) +
      (b - a) / real_of_int (n div 2) * real_of_int (n div 2 - 1) = b"
    by (simp add: field_simps)
  show ?thesis by (intro conjI step fa fb fc fd fe ff x1 x2)
qed

theorem applyRampingGain_f32_frames_witness:
  "(2::int) \<le> 4 \<and> even (4::int) \<and> nat 4 \<le> length [Fin 1, Fin 1, Fin 1, Fin 1] \<and>
   \<not> (Fin 0 = Fin 1 \<and> Fin 2 = Fin 1) \<and> \<not> (Fin 0 = Fin 0 \<and> Fin 2 = Fin 0) \<and>
   gain_delta_f32 (Fin 0) (Fin 2) 4 = Fin 1 \<and> (1::real) \<noteq> 0 \<and> (1::nat) < nat (4 div 2) \<and>
   applyRampingGain_f32 [Fin 1, Fin 1, Fin 1, Fin 1] (Fin 0) (Fin 2) 4 ! (1 * 2) =
     fmul ([Fin 1, Fin 1, Fin 1, Fin 1] ! (1 * 2))
       (fadd (fadd (Fin 0) (Fin 1)) (fmul (Fin 1) (f32_of_int (int 1)))) \<and>
   applyRampingGain_f32 [Fin 1, Fin 1, Fin 1, Fin 1] (Fin 0) (Fin 2) 4 ! 0 =
     fmul ([Fin 1, Fin 1, Fin 1, Fin 1] ! 0) (fadd (Fin 0) (Fin 1)) \<and>
   applyRampingGain_f32 [Fin 1, Fin 1, Fin 1, Fin 1] (Fin 0) (Fin 2) 4 ! (nat 4 - 1) =
     fmul ([Fin 1, Fin 1, Fin 1, Fin 1] ! (nat 4 - 1))
       (fadd (fadd (Fin 0) (Fin 1)) (fmul (Fin 1) (f32_of_int (4 div 2 - 1))))"
proof -
  have r: "round_f32 1 = Fin 1" "round_f32 2 = Fin 2"
    by (simp_all add: round_eval)
  have d: "gain_delta_f32 (Fin 0) (Fin 2) 4 = Fin 1"
    by (simp add: f32_eval r)
  have h: "(2::int) \<le> 4" "even (4::int)" "nat 4 \<le> length [Fin 1, Fin 1, Fin 1, Fin 1]"
    "\<not> (Fin 0 = Fin 1 \<and> Fin 2 = Fin 1)" "\<not> (Fin 0 = Fin 0 \<and> Fin 2 = Fin 0)"
    "(1::real) \<noteq> 0" "(1::nat) < nat (4 div 2)"
    by simp_all
  from applyRampingGain_f32_frames [OF h(1-5) d h(6,7)] h d show ?thesis by blast
qed


text \<open>
  The same for the embedding of \<open>applyRampingGain\<close> without rounding: frame \<open>i\<close>
  is multiplied by \<open>g0 + (i+1)*step\<close> and the last frame by \<open>g1\<close>.
\<close>

lemma applyRampingGain_exact_frames:
  assumes "2 \<le> n" and "even n" and "nat n \<le> length buf"
    and "\<not> (g0 = 1 \<and> g1 = 1)" and "\<not> (g0 = 0 \<and> g1 = 0)"
    and "gain_delta g0 g1 n = Some step" and "step \<noteq> 0"
    and "i < nat (n div 2)"
  shows "step = (g1 - g0) / real_of_int (n div 2) \<and>
         applyRampingGain buf g0 g1 n ! (i * 2) = buf ! (i * 2) * (g0 + (real i + 1) * step) \<and>
         applyRampingGain buf g0 g1 n ! (i * 2 + 1) =
           buf ! (i * 2 + 1) * (g0 + (real i + 1) * step) \<and>
         applyRampingGain buf g0 g1 n ! 0 = buf ! 0 * (g0 + step) \<and>
         applyRampingGain buf g0 g1 n ! 1 = buf ! 1 * (g0 + step) \<and>
         applyRampingGain buf g0 g1 n ! (nat n - 2) = buf ! (nat n - 2) * g1 \<and>
         applyRampingGain buf g0 g1 n ! (nat n - 1) = buf ! (nat n - 1) * g1"
proof -
  let ?k = "nat (n div 2)"
  have sd: "n sdiv 2 = n div 2" using assms(1) by (simp add: sdiv_nonneg)
  have k: "2 * ?k = nat n" "0 < ?k" using assms(1,2) by auto
  have step: "step = (g1 - g0) / real_of_int (n div 2)"
    using assms(6) by (simp add: gain_delta_def ramp_divisor_def sd split: if_splits)
  have nz: "real_of_int (n div 2) \<noteq> 0" using assms(1) by simp
  have rk: "real ?k = real_of_int (n div 2)" using assms(1) by simp
  have nth: "applyRampingGain buf g0 g1 n ! j = buf ! j * (g0 + (real (j div 2) + 1) * step)"
    if "j < nat n" for j
  proof -
    from that assms(3) have "j < length buf" by simp
    then show ?thesis
      unfolding applyRampingGain_ramp [OF assms(4-7)] sd
      using that k ramp_loop_nth [of j buf "ramp_gain (g0 + step) step" ?k]
      by (simp add: ramp_gain_def algebra_simps)
  qed
  have last: "g0 + (real (?k - 1) + 1) * step = g1"
  proof -
    have "real (?k - 1) + 1 = real_of_int (n div 2)" using k(2) rk by (simp add: of_nat_diff)
    then show ?thesis using nz by (simp add: step)
  qed
  have i2: "i * 2 < nat n" "i * 2 + 1 < nat n" using assms(8) k by linarith+
  have d2: "(i * 2) div 2 = i" "(i * 2 + 1) div 2 = i" by simp_all
  have l2: "nat n - 2 < nat n" "nat n - 1 < nat n" "(nat n - 2) div 2 = ?k - 1"
    "(nat n - 1) div 2 = ?k - 1" "0 < nat n" "1 < nat n"
    using k assms(1) by linarith+
  have a: "applyRampingGain buf g0 g1 n ! (i * 2) = buf ! (i * 2) * (g0 + (real i + 1) * step)"
    using nth [OF i2(1)] unfolding d2 .
  have b: "applyRampingGain buf g0 g1 n ! (i * 2 + 1) =
      buf ! (i * 2 + 1) * (g0 + (real i + 1) * step)"
    using nth [OF i2(2)] unfolding d2 .
  have c: "applyRampingGain buf g0 g1 n ! 0 = buf ! 0 * (g0 + step)"
    using nth [OF l2(5)] by simp
  have d: "applyRampingGain buf g0 g1 n ! 1 = buf ! 1 * (g0 + step)"
    using nth [OF l2(6)] by simp
  have e: "applyRampingGain buf g0 g1 n ! (nat n - 2) = buf ! (nat n - 2) * g1"
    using nth [OF l2(1)] unfolding l2(3) last .
  have f: "applyRampingGain buf g0 g1 n ! (nat n - 1) = buf ! (nat n - 1) * g1"
    using nth [OF l2(2)] unfolding l2(4) last .
  show ?thesis by (intro conjI step a b c d e f)
qed





text \<open>
  The last sample is left alone in binary32 as well: whatever the delta is, as long
  as it compares unequal to zero, only the first \<open>numSamples - 1\<close> samples are
  written.
\<close>

lemma applyRampingGain_f32_odd_last_sample:
  assumes "odd n" and "0 < n" and "nat n \<le> length buf"
    and "\<not> (g0 = Fin 1 \<and> g1 = Fin 1)" and "\<not> (g0 = Fin 0 \<and> g1 = Fin 0)"
    and "gain_delta_f32 g0 g1 n \<noteq> Fin 0"
  shows "drop (nat n - 1) (applyRampingGain_f32 buf g0 g1 n) = drop (nat n - 1) buf"
proof -
  let ?k = "nat (n div 2)"
  let ?d = "gain_delta_f32 g0 g1 n"
  let ?g = "ramp_gain_f32 (fadd g0 ?d) ?d"
  let ?loop = "fold (\<lambda>i b. fmul_at (fmul_at b (i * 2) (?g i)) (i * 2 + 1) (?g i)) [0..<?k] buf"
  have sd: "n sdiv 2 = n div 2" using assms(2) by (simp add: sdiv_nonneg)
  have k: "2 * ?k = nat n - 1" using assms(1,2) by (auto elim!: oddE)
  have eq: "applyRampingGain_f32 buf g0 g1 n = ?loop"
    using assms(4-6) by (auto simp: applyRampingGain_f32_def Let_def sd)
  have len: "length ?loop = length buf" by (rule framp_loop_length)
  have "?loop ! j = buf ! j" if "j < length buf" "nat n - 1 \<le> j" for j
    using that k framp_loop_nth [of j buf ?g ?k] by simp
  then show ?thesis
    unfolding eq using len by (auto intro!: nth_equalityI)
qed

section \<open>Mixdown to mono\<close>

text \<open>
  Claim C6 says that \<open>mixMultichannelToMono\<close> writes to \<open>dest[i]\<close> the arithmetic
  mean \<open>(src[i*C] + ... + src[i*C + C-1]) / C\<close> of frame \<open>i\<close>, for all frame
  contents, and that a frame whose channels all equal \<open>v\<close> yields \<open>v\<close>. The sum
  is rounded to binary32 after every addition: the stereo frame \<open>[16777216, 1]\<close>
  yields \<open>8388608\<close>, while its mean is \<open>8388608.5\<close>; and the stereo frame
  \<open>[2^127, 2^127]\<close> of two equal samples yields infinity, because the sum
  overflows.
\<close>

theorem mixMultichannelToMono_rounding_counterexample:
  "mixMultichannelToMono_f32 2 [Fin 0] [Fin 16777216, Fin 1] 2 = [Fin 8388608] \<and>
   (8388608 :: real) \<noteq> (16777216 + 1) / 2 \<and>
   is_f32 (2 ^ 127) \<and>
   mixMultichannelToMono_f32 2 [Fin 0] [Fin (2 ^ 127), Fin (2 ^ 127)] 2 = [PInf] \<and>
   PInf \<noteq> Fin (2 ^ 127)"
proof -
  have r: "round_f32 2 = Fin 2" "round_f32 (1 / 2) = Fin (1 / 2)"
    "round_f32 16777216 = Fin 16777216" "round_f32 16777217 = Fin 16777216"
    "round_f32 8388608 = Fin 8388608"
    "round_f32 170141183460469231731687303715884105728 =
       Fin 170141183460469231731687303715884105728"
    "round_f32 340282366920938463463374607431768211456 = PInf"
    by (simp_all add: round_eval)
  show ?thesis
    by (simp add: mixMultichannelToMono_f32_def f32_eval is_f32_def r Let_def eval_nat_numeral
        add_divide_distrib)
qed

text \<open>
  Claim C6, amended. For a channel count \<open>C \<ge> 1\<close> and a source of \<open>numSamples\<close>
  samples, \<open>numSamples\<close> an exact multiple of \<open>C\<close>, \<open>mixMultichannelToMono\<close>
  writes to \<open>dest[i]\<close>, for each frame \<open>i\<close>, the value
  \<open>(((0 + src[i*C]) + src[i*C+1]) + ... + src[i*C + C-1]) * (1 / (1 * C))\<close>, where
  every addition, the quotient and the products are rounded to binary32. Computed
  without rounding, this expression is the arithmetic mean of the frame (the last
  conjunct, on real numbers \<open>x ch\<close>). An all-zero frame yields 0, and for
  \<open>C = 2\<close> a frame whose two channels equal a finite binary32 value \<open>v\<close> yields
  \<open>v\<close> unless \<open>v + v\<close> overflows.
\<close>

theorem mixMultichannelToMono_f32_frame:
  assumes "0 < chCount" and "0 \<le> numSamples" and "chCount dvd numSamples"
    and "nat numSamples \<le> length pSrc"
    and "nat (numSamples div chCount) \<le> length pDest"
    and "i < nat (numSamples div chCount)"
  shows "mixMultichannelToMono_f32 chCount pDest pSrc numSamples ! i =
           fmul (fold (\<lambda>ch acc. fadd acc (pSrc ! (i * nat chCount + ch))) [0..<nat chCount] (Fin 0))
             (fdiv (Fin 1) (fmul (Fin 1) (f32_of_int chCount))) \<and>
         ((\<forall>ch<nat chCount. pSrc ! (i * nat chCount + ch) = Fin 0) \<longrightarrow>
           mixMultichannelToMono_f32 chCount pDest pSrc numSamples ! i = Fin 0) \<and>
         (chCount = 2 \<and> pSrc ! (i * 2) = Fin v \<and> pSrc ! (i * 2 + 1) = Fin v \<and>
          is_f32 v \<and> \<bar>v + v\<bar> < 2 ^ 128 \<longrightarrow>
           mixMultichannelToMono_f32 chCount pDest pSrc numSamples ! i = Fin v) \<and>
         fold (\<lambda>ch acc. acc + x ch) [0..<nat chCount] 0 * (1 / (1 * real_of_int chCount)) =
           (\<Sum>ch<nat chCount. x ch) / real_of_int chCount"
proof -
  let ?sum = "\<lambda>i. fold (\<lambda>ch acc. fadd acc (pSrc ! (i * nat chCount + ch))) [0..<nat chCount] (Fin 0)"
  let ?s = "fdiv (Fin 1) (fmul (Fin 1) (f32_of_int chCount))"
  let ?R = "mixMultichannelToMono_f32 chCount pDest pSrc numSamples"
  have "?R = fold (\<lambda>i dest. dest[i := (\<lambda>i _. fmul (?sum i) ?s) i (dest ! i)])
          [0..<nat (numSamples div chCount)] pDest"
    using assms(1,2) by (simp add: mixMultichannelToMono_f32_def mono_frame_f32 sdiv_nonneg)
  then have 1: "?R ! i = fmul (?sum i) ?s"
    using assms(5,6)
      fold_pointwise_nth [of i pDest "\<lambda>i _. fmul (?sum i) ?s" "nat (numSamples div chCount)"]
    by simp
  have 2: "?R ! i = Fin 0" if "\<forall>ch<nat chCount. pSrc ! (i * nat chCount + ch) = Fin 0"
  proof -
    from that have "?sum i = Fin 0" by (intro fold_fadd_zero) simp
    moreover obtain s where "?s = Fin s" using mixScale_finite [OF assms(1)] by blast
    ultimately show ?thesis using 1 by simp
  qed
  have 3: "?R ! i = Fin v"
    if "chCount = 2 \<and> pSrc ! (i * 2) = Fin v \<and> pSrc ! (i * 2 + 1) = Fin v \<and>
        is_f32 v \<and> \<bar>v + v\<bar> < 2 ^ 128"
  proof -
    from that have v: "round_f32 v = Fin v" by (simp add: is_f32_def)
    from that have "?sum i = fadd (fadd (Fin 0) (Fin v)) (Fin v)"
      by (simp add: eval_nat_numeral)
    also have "\<dots> = Fin (v + v)" using v round_f32_double [OF v] that by simp
    finally have "?sum i = Fin (v + v)" .
    moreover have "?s = Fin (1 / 2)" using that mixScale_stereo by simp
    ultimately show ?thesis using 1 v by simp
  qed
  have "fold (\<lambda>ch acc. acc + x ch) [0..<m] a = a + (\<Sum>ch<m. x ch)" for m and a :: real
    by (induction m) simp_all
  then have 4: "fold (\<lambda>ch acc. acc + x ch) [0..<nat chCount] 0 * (1 / (1 * real_of_int chCount)) =
      (\<Sum>ch<nat chCount. x ch) / real_of_int chCount"
    by simp
  from 1 2 3 4 show ?thesis by blast
qed

theorem mixMultichannelToMono_f32_frame_witness:
  "(0::int) < 2 \<and> (0::int) \<le> 4 \<and> (2::int) dvd 4 \<and>
   nat 4 \<le> length [Fin 5, Fin 5, Fin 0, Fin 0] \<and> nat (4 div 2) \<le> length [Fin 9, Fin 9] \<and>
   (0::nat) < nat (4 div 2) \<and> (1::nat) < nat (4 div 2) \<and>
   [Fin 5, Fin 5, Fin 0, Fin 0] ! (0 * 2) = Fin 5 \<and>
   [Fin 5, Fin 5, Fin 0, Fin 0] ! (0 * 2 + 1) = Fin 5 \<and> is_f32 5 \<and> \<bar>5 + 5 :: real\<bar> < 2 ^ 128 \<and>
   [Fin 5, Fin 5, Fin 0, Fin 0] ! (1 * nat 2 + 0) = Fin 0 \<and>
   [Fin 5, Fin 5, Fin 0, Fin 0] ! (1 * nat 2 + 1) = Fin 0 \<and>
   mixMultichannelToMono_f32 2 [Fin 9, Fin 9] [Fin 5, Fin 5, Fin 0, Fin 0] 4 ! 0 = Fin 5 \<and>
   mixMultichannelToMono_f32 2 [Fin 9, Fin 9] [Fin 5, Fin 5, Fin 0, Fin 0] 4 ! 1 = Fin 0"
proof -
  let ?src = "[Fin 5, Fin 5, Fin 0, Fin 0]"
  have f5: "is_f32 5" by (simp add: is_f32_def round_eval)
  have h: "(0::int) < 2" "(0::int) \<le> 4" "(2::int) dvd 4" "nat 4 \<le> length ?src"
    "nat (4 div 2) \<le> length [Fin 9, Fin 9]"
    by simp_all
  have i0: "(0::nat) < nat (4 div 2)" and i1: "(1::nat) < nat (4 div 2)" by simp_all
  have z: "\<forall>ch<nat 2. ?src ! (1 * nat 2 + ch) = Fin 0"
    by (simp add: less_Suc_eq eval_nat_numeral)
  have e: "?src ! (0 * 2) = Fin 5" "?src ! (0 * 2 + 1) = Fin 5" "\<bar>5 + 5 :: real\<bar> < 2 ^ 128"
    "?src ! (1 * nat 2 + 0) = Fin 0" "?src ! (1 * nat 2 + 1) = Fin 0"
    by simp_all
  have a: "mixMultichannelToMono_f32 2 [Fin 9, Fin 9] ?src 4 ! 0 = Fin 5"
    using mixMultichannelToMono_f32_frame [OF h i0, of 5] e f5 by blast
  have b: "mixMultichannelToMono_f32 2 [Fin 9, Fin 9] ?src 4 ! 1 = Fin 0"
    using mixMultichannelToMono_f32_frame [OF h i1, of 0] z by blast
  from h i0 i1 e f5 a b show ?thesis by blast
qed


text \<open>
  The same for the embedding of \<open>mixMultichannelToMono\<close> without rounding: the
  value written for a frame is its arithmetic mean.
\<close>

lemma mixMultichannelToMono_exact_mean:
  assumes "0 < chCount" and "0 \<le> numSamples" and "chCount dvd numSamples"
    and "nat numSamples \<le> length pSrc"
    and "nat (numSamples div chCount) \<le> length pDest"
    and "i < nat (numSamples div chCount)"
  shows "mixMultichannelToMono chCount pDest pSrc numSamples ! i =
           (\<Sum>ch<nat chCount. pSrc ! (i * nat chCount + ch)) / real_of_int chCount \<and>
         ((\<forall>ch<nat chCount. pSrc ! (i * nat chCount + ch) = v) \<longrightarrow>
           mixMultichannelToMono chCount pDest pSrc numSamples ! i = v)"
proof -
  let ?S = "\<lambda>i. \<Sum>ch<nat chCount. pSrc ! (i * nat chCount + ch)"
  let ?s = "1 / (1 * real_of_int chCount)"
  have "mixMultichannelToMono chCount pDest pSrc numSamples =
        fold (\<lambda>i dest. dest[i := (\<lambda>i _. ?S i * ?s) i (dest ! i)])
          [0..<nat (numSamples div chCount)] pDest"
    using assms(1,2) by (simp add: mixMultichannelToMono_def mono_frame sdiv_nonneg)
  then have "mixMultichannelToMono chCount pDest pSrc numSamples ! i = ?S i * ?s"
    using assms(5,6)
      fold_pointwise_nth [of i pDest "\<lambda>i _. ?S i * ?s" "nat (numSamples div chCount)"]
    by simp
  then have 1: "mixMultichannelToMono chCount pDest pSrc numSamples ! i =
      ?S i / real_of_int chCount"
    by simp
  have "?S i / real_of_int chCount = v" if "\<forall>ch<nat chCount. pSrc ! (i * nat chCount + ch) = v"
    using that assms(1) by simp
  with 1 show ?thesis by simp
qed


section \<open>Conversion between 16-bit and float samples\<close>

lemma sint16_range: "- 32768 \<le> sint (s :: 16 word) \<and> sint s \<le> 32767"
  using sint_ge [of s] sint_lt [of s] by simp

lemma s16_round_trip:
  "static_cast_SAMPLE
     (math_clamp (real_of_int (sint (s :: SAMPLE)) / kConversionFactor * kConversionFactor)
        (real_of_int SAMPLE_MINIMUM) (real_of_int SAMPLE_MAXIMUM)) = s"
proof -
  have k: "real_of_int (sint s) / kConversionFactor * kConversionFactor = real_of_int (sint s)"
    by (simp add: kConversionFactor_def SAMPLE_MINIMUM_def del: of_int_sint)
  have c: "math_clamp (real_of_int (sint s)) (real_of_int SAMPLE_MINIMUM)
             (real_of_int SAMPLE_MAXIMUM) = real_of_int (sint s)"
    using sint16_range [of s]
    by (simp add: math_clamp_def SAMPLE_MINIMUM_def SAMPLE_MAXIMUM_def del: of_int_sint)
  have t: "static_cast_SAMPLE (real_of_int i) = word_of_int i" for i
    by (simp add: static_cast_SAMPLE_def)
  have "word_of_int (sint s) = s" by simp
  then show ?thesis
    unfolding k c t .
qed


text \<open>
  Claim C4. Converting 16-bit samples with \<open>convertS16ToFloat32\<close> (divide by
  32768, the negated minimum) and back with \<open>convertFloat32ToS16\<close> (multiply by
  32768, clamp to \<open>[-32768, 32767]\<close>, truncate) reproduces every sample; the
  extreme negative sample \<open>-32768\<close> round-trips, and the float \<open>+1.0\<close> is
  clamped to \<open>32767\<close>.
\<close>

theorem convertS16_round_trip:
  assumes "length pSrc = nat n" and "length fDest = nat n" and "length sDest = nat n"
  shows "convertFloat32ToS16 sDest (convertS16ToFloat32 fDest pSrc n) n = pSrc \<and>
         convertFloat32ToS16 [0] (convertS16ToFloat32 [0] [- 32768] 1) 1 = [- 32768] \<and>
         convertFloat32ToS16 [0] [1] 1 = [32767]"
proof -
  let ?f = "convertS16ToFloat32 fDest pSrc n"
  have lf: "length ?f = nat n"
    unfolding convertS16ToFloat32_def using assms(2)
    by (simp add: fold_pointwise_length [of "\<lambda>i _. real_of_int (sint (pSrc ! i)) / kConversionFactor"]
        del: of_int_sint)
  have nf: "?f ! j = real_of_int (sint (pSrc ! j)) / kConversionFactor" if "j < nat n" for j
    unfolding convertS16ToFloat32_def
    using that assms(2)
      fold_pointwise_nth [of j fDest "\<lambda>i _. real_of_int (sint (pSrc ! i)) / kConversionFactor" "nat n"]
    by (simp del: of_int_sint)
  let ?g = "\<lambda>i (_::SAMPLE). static_cast_SAMPLE (math_clamp (?f ! i * kConversionFactor)
                 (real_of_int SAMPLE_MINIMUM) (real_of_int SAMPLE_MAXIMUM))"
  have ls: "length (convertFloat32ToS16 sDest ?f n) = nat n"
    unfolding convertFloat32ToS16_def using assms(3)
    by (simp add: fold_pointwise_length [of ?g])
  have ns: "convertFloat32ToS16 sDest ?f n ! j = pSrc ! j" if "j < nat n" for j
  proof -
    have "convertFloat32ToS16 sDest ?f n ! j = ?g j (sDest ! j)"
      unfolding convertFloat32ToS16_def
      using that assms(3) fold_pointwise_nth [of j sDest ?g "nat n"] by simp
    also have "\<dots> = pSrc ! j"
      unfolding nf [OF that] by (rule s16_round_trip)
    finally show ?thesis .
  qed
  have 1: "convertFloat32ToS16 sDest ?f n = pSrc"
    using ls ns assms(1) by (auto intro: nth_equalityI)
  have 2: "convertFloat32ToS16 [0] (convertS16ToFloat32 [0] [- 32768] 1) 1 = [- 32768]"
    by (simp add: convertFloat32ToS16_def convertS16ToFloat32_def static_cast_SAMPLE_def
        math_clamp_def kConversionFactor_def SAMPLE_MINIMUM_def SAMPLE_MAXIMUM_def)
  have 3: "convertFloat32ToS16 [0] [1] 1 = [32767]"
    by (simp add: convertFloat32ToS16_def static_cast_SAMPLE_def
        math_clamp_def kConversionFactor_def SAMPLE_MINIMUM_def SAMPLE_MAXIMUM_def)
  from 1 2 3 show ?thesis by simp
qed

theorem convertS16_round_trip_witness:
  "length [5, - 7 :: SAMPLE] = nat 2 \<and> length [0, 0 :: real] = nat 2 \<and>
   length [0, 0 :: SAMPLE] = nat 2 \<and>
   convertFloat32ToS16 [0, 0] (convertS16ToFloat32 [0, 0] [5, - 7] 2) 2 = [5, - 7]"
  using convertS16_round_trip [of "[5, - 7]" 2 "[0, 0]" "[0, 0]"] by simp

section \<open>Linear crossfade of stereo buffers\<close>













section \<open>Ramping normalization\<close>

text \<open>
  Claim C5 says that \<open>copyWithRampingNormalization\<close> returns the target amplitude
  divided by the peak absolute amplitude of the mono fold of \<open>src\<close> (or 1 for
  silence) and leaves in \<open>dest\<close> the ramp-copy of \<open>src\<close> to that gain. The peak
  comes from \<open>maxAbsAmplitude\<close>, which does not take the absolute value of the
  first sample. For the stereo source \<open>[-3, -3, 1, 1]\<close> the mono fold is
  \<open>[-3, 1]\<close> with peak 3, but the function finds 1: with target amplitude 3 and
  old gain 1 it returns the gain 3 and writes \<open>[-6, -6, 3, 3]\<close>, where the peak 3
  gives the gain 1 and the copy \<open>[-3, -3, 1, 1]\<close>.
\<close>

theorem copyWithRampingNormalization_negative_peak:
  "mixMultichannelToMono 2 [0, 0, 0, 0] [- 3, - 3, 1, 1] 4 = [- 3, 1, 0, 0] \<and>
   peak_abs_spec [- 3, 1, 0, 0] (4 sdiv 2) = 3 \<and>
   maxAbsAmplitude [- 3, 1, 0, 0] (4 sdiv 2) = 1 \<and>
   copyWithRampingNormalization 2 [0, 0, 0, 0] [- 3, - 3, 1, 1] 1 3 4 = ([- 6, - 6, 3, 3], 3) \<and>
   copyWithRampingGain [0, 0, 0, 0] [- 3, - 3, 1, 1] 1 (3 / 3) 4 = [- 3, - 3, 1, 1]"
  by (simp add: copyWithRampingNormalization_def mixMultichannelToMono_def maxAbsAmplitude_def
      peak_abs_spec_def copyWithRampingGain_def copy_def gain_delta_def ramp_divisor_def
      ramp_gain_def signed_divide_int_def add_at_def mul_at_def eval_nat_numeral)

end
